theory Spec2Isabelle
  imports Complex_Main "HOL-Library.Sublist" "HOL-Library.AList"
begin

section \<open>The Azure environment manager (lib/utils/azureEnvironmentManager.js)\<close>

text \<open>
  The module provisions and deletes one Azure web app per Jira issue. Its functions are
  embedded here one by one, under their own names. The collaborators the module only
  calls (the Azure clients, the database manager, the Jira issue manager, the
  configuration loader, \<open>require\<close>, \<open>Math.random\<close>) appear as arguments
  holding the answer they give.
\<close>

subsection \<open>Strings\<close>

text \<open>
  A JavaScript string is modelled as a \<open>string\<close> of 8-bit characters.
  \<open>toLowerCase\<close> maps the letters \<open>A\<close>..\<open>Z\<close> to \<open>a\<close>..\<open>z\<close> and leaves every other
  character as it is (the ASCII part of \<open>String.prototype.toLowerCase\<close>).
\<close>

definition toLowerChar :: "char \<Rightarrow> char" where
  "toLowerChar c =
     (case map_of (zip ''ABCDEFGHIJKLMNOPQRSTUVWXYZ'' ''abcdefghijklmnopqrstuvwxyz'') c of
        None \<Rightarrow> c
      | Some l \<Rightarrow> l)"

definition toLowerCase :: "string \<Rightarrow> string" where
  "toLowerCase s = map toLowerChar s"

text \<open>The decimal form of an integer, as \<open>"database=" + databaseNumber\<close> builds it.\<close>

definition digit_char :: "nat \<Rightarrow> char" where
  "digit_char d = ''0123456789'' ! d"

fun string_of_nat :: "nat \<Rightarrow> string" where
  "string_of_nat n =
     (if n < 10 then [digit_char n] else string_of_nat (n div 10) @ [digit_char (n mod 10)])"

declare string_of_nat.simps [simp del]

definition string_of_int :: "int \<Rightarrow> string" where
  "string_of_int i = (if i < 0 then CHR ''-'' # string_of_nat (nat (- i)) else string_of_nat (nat i))"

text \<open>
  \<open>s.replace(pat, rep)\<close> with a string pattern replaces the first occurrence of
  \<open>pat\<close> in \<open>s\<close>, and returns \<open>s\<close> when there is none. (The replacement strings of
  this module hold no \<open>$\<close>, so no replacement pattern is expanded.)
\<close>

fun replace_first :: "string \<Rightarrow> string \<Rightarrow> string \<Rightarrow> string" where
  "replace_first pat rep [] = (if pat = [] then rep else [])"
| "replace_first pat rep (c # cs) =
     (if prefix pat (c # cs) then rep @ drop (length pat) (c # cs)
      else c # replace_first pat rep cs)"

subsection \<open>Values, objects and the store\<close>

text \<open>
  The template and the \<open>webapp\<close> part of the configuration are untyped object graphs
  that the module reads by path and writes in place. They live in a store: a list of
  objects, an address being an index. A property key is an array index or a name
  (\<open>Idx n\<close> stands for the key \<open>"n"\<close>); an array is an object whose keys are indices.
  The properties of an object are an association list read with \<open>map_of\<close>. The
  values are those of JSON and \<open>undefined\<close>; functions, dates and regular expressions
  do not occur.
\<close>

datatype key = Idx nat | Name string

datatype val = Undefined | Null | Bool bool | Num int | Str string | Ref nat

record obj =
  is_array :: bool
  props :: "(key \<times> val) list"

type_synonym heap = "obj list"

datatype js_error = TypeError | ModuleNotFound | SyntaxError

subsection \<open>Configuration and pipeline context\<close>

text \<open>
  \<open>require("./config")("azure")[code]\<close>: the settings the module reads as strings are
  fields; \<open>resource_group\<close> may be unset (\<open>None\<close>); \<open>webapp\<close> is a value of the store.
\<close>

record azure_config =
  resource_group :: "string option"
  env_prefix :: string
  scm_user :: string
  scm_password :: string
  webapp :: val

text \<open>
  The context, as the collaborators answer for it: the issue key found by
  \<open>jiraIssueManager.getJiraIssueKey\<close> (\<open>None\<close> when it finds none), the strings of
  the database manager, and the working directory.
\<close>

record task_context =
  jira_key :: "string option"
  db_primary :: "nat \<Rightarrow> string"
  db_backup :: "nat \<Rightarrow> string"
  db_backup_schema :: string
  cwd :: string

subsection \<open>Names and URLs\<close>

definition getWebsiteName :: "azure_config \<Rightarrow> string option \<Rightarrow> string" where
  "getWebsiteName azureConfig jiraIssueKey =
     (case jiraIssueKey of
        None \<Rightarrow> toLowerCase (env_prefix azureConfig @ ''-qa'')
      | Some k \<Rightarrow>
          if k = '''' then toLowerCase (env_prefix azureConfig @ ''-qa'')
          else toLowerCase (env_prefix azureConfig @ ''-'' @ k @ ''-qa''))"

text \<open>\<open>getJiraIssueKey(context) || ""\<close>\<close>

definition jiraIssueKey_or_empty :: "task_context \<Rightarrow> string" where
  "jiraIssueKey_or_empty ctx = (case jira_key ctx of None \<Rightarrow> '''' | Some k \<Rightarrow> k)"

definition getWebsiteSCMURLWithUser :: "azure_config \<Rightarrow> string \<Rightarrow> string" where
  "getWebsiteSCMURLWithUser azureConfig websiteName =
     ''https://'' @ scm_user azureConfig @ ''@'' @ websiteName
       @ ''.scm.azurewebsites.net:443/'' @ websiteName"

definition getWebsiteSCMURLWithUserAndPass :: "azure_config \<Rightarrow> string \<Rightarrow> string" where
  "getWebsiteSCMURLWithUserAndPass azureConfig websiteName =
     ''https://'' @ (scm_user azureConfig @ '':'' @ scm_password azureConfig) @ ''@''
       @ websiteName @ ''.scm.azurewebsites.net:443/'' @ websiteName"

text \<open>\<open>getEnvironmentName\<close> calls back with \<open>(null, credentials, subscriptionId, websiteName)\<close>.\<close>

definition getEnvironmentName ::
  "task_context \<Rightarrow> azure_config \<Rightarrow> 'c \<Rightarrow> string \<Rightarrow> 'c \<times> string \<times> string" where
  "getEnvironmentName ctx azureConfig credentials subscriptionId =
     (credentials, subscriptionId,
      getWebsiteName azureConfig (Some (jiraIssueKey_or_empty ctx)))"

definition getDeploymentUrl :: "task_context \<Rightarrow> azure_config \<Rightarrow> string" where
  "getDeploymentUrl ctx azureConfig =
     getWebsiteSCMURLWithUser azureConfig
       (getWebsiteName azureConfig (Some (jiraIssueKey_or_empty ctx)))"

definition getWebappUrl :: "task_context \<Rightarrow> azure_config \<Rightarrow> string" where
  "getWebappUrl ctx azureConfig =
     ''https://'' @ getWebsiteName azureConfig (Some (jiraIssueKey_or_empty ctx))
       @ ''.azurewebsites.net''"

text \<open>
  \<open>createAzureWebAppVariablesFile\<close>: the lines written to
  \<open>Temp/azureWebappVariables.txt\<close>, each ending in a newline. An issue key that was
  not found is concatenated as \<open>undefined\<close>.
\<close>

definition createAzureWebAppVariablesFile :: "task_context \<Rightarrow> azure_config \<Rightarrow> string list" where
  "createAzureWebAppVariablesFile ctx azureConfig =
     [''deploymentUrl='' @ getDeploymentUrl ctx azureConfig @ ''.git'',
      ''webappUrl='' @ getWebappUrl ctx azureConfig,
      ''webappPort=443'',
      ''jiraIssueKey='' @ (case jira_key ctx of None \<Rightarrow> ''undefined'' | Some k \<Rightarrow> k),
      ''webappDbPrimaryConnString0='' @ db_primary ctx 0,
      ''webappDbPrimaryConnString1='' @ db_primary ctx 1,
      ''webappDbBackupConnString0='' @ db_backup ctx 0,
      ''webappDbBackupConnString1='' @ db_backup ctx 1]"


subsection \<open>Reading and writing properties\<close>

text \<open>
  \<open>v.k\<close> and \<open>v[i]\<close>: a \<open>TypeError\<close> on \<open>undefined\<close> and \<open>null\<close>, the own property of
  an object (or \<open>undefined\<close>), the character of a string at an index. The names this
  module reads are no built-in property of a string, number, boolean or array, so
  such a read gives \<open>undefined\<close>. The store holds no object at an address beyond its
  length; a reference to one reads as an object without properties.
\<close>

fun get_prop :: "heap \<Rightarrow> val \<Rightarrow> key \<Rightarrow> js_error + val" where
  "get_prop h Undefined k = Inl TypeError"
| "get_prop h Null k = Inl TypeError"
| "get_prop h (Ref a) k =
     (if a < length h
      then (case map_of (props (h ! a)) k of None \<Rightarrow> Inr Undefined | Some v \<Rightarrow> Inr v)
      else Inr Undefined)"
| "get_prop h (Str s) (Idx i) = Inr (if i < length s then Str [s ! i] else Undefined)"
| "get_prop h (Str s) (Name n) = Inr Undefined"
| "get_prop h (Bool b) k = Inr Undefined"
| "get_prop h (Num n) k = Inr Undefined"

fun get_path :: "heap \<Rightarrow> val \<Rightarrow> key list \<Rightarrow> js_error + val" where
  "get_path h v [] = Inr v"
| "get_path h v (k # ks) =
     (case get_prop h v k of Inl e \<Rightarrow> Inl e | Inr v' \<Rightarrow> get_path h v' ks)"

text \<open>
  \<open>v.k = x\<close> in strict mode (the module starts with \<open>"use strict"\<close>): a \<open>TypeError\<close>
  unless \<open>v\<close> is an object, whose property \<open>k\<close> is then set or added.
\<close>

fun set_prop :: "heap \<Rightarrow> val \<Rightarrow> key \<Rightarrow> val \<Rightarrow> js_error + heap" where
  "set_prop h (Ref a) k x =
     (if a < length h
      then Inr (h[a := (h ! a)\<lparr>props := AList.update k x (props (h ! a))\<rparr>])
      else Inr h)"
| "set_prop h v k x = Inl TypeError"

definition bind_e :: "'e + 'a \<Rightarrow> ('a \<Rightarrow> 'e + 'b) \<Rightarrow> 'e + 'b" where
  "bind_e m f = (case m of Inl e \<Rightarrow> Inl e | Inr x \<Rightarrow> f x)"

text \<open>Statements run in order; the first one that throws ends the run.\<close>

fun run_stmts :: "(heap \<Rightarrow> js_error + heap) list \<Rightarrow> heap \<Rightarrow> heap \<times> js_error option" where
  "run_stmts [] h = (h, None)"
| "run_stmts (s # ss) h = (case s h of Inl e \<Rightarrow> (h, Some e) | Inr h' \<Rightarrow> run_stmts ss h')"

subsection \<open>Ramda: \<open>R.clone\<close> and \<open>R.merge\<close>\<close>

text \<open>
  \<open>R.clone(v)\<close> is Ramda's \<open>_clone(v, [], [], true)\<close>: a primitive is returned as it
  is; an object or array met for the first time gets a new empty copy, which is
  entered in the table of copies (\<open>refFrom\<close>/\<open>refTo\<close>, here a list of pairs) before
  its properties are cloned and set one by one; an object met again is answered from
  the table. The recursion depth is bounded by the fuel \<open>n\<close>; \<open>None\<close> means the
  fuel ran out. Each level of the recursion enters one more object of the store in the
  table, so the length of the store is fuel enough (lemma \<open>R_clone_returns\<close>).
\<close>

fun clone_val ::
    "nat \<Rightarrow> heap \<Rightarrow> (nat \<times> nat) list \<Rightarrow> val \<Rightarrow> (heap \<times> (nat \<times> nat) list \<times> val) option"
  and clone_props ::
    "nat \<Rightarrow> heap \<Rightarrow> (nat \<times> nat) list \<Rightarrow> nat \<Rightarrow> (key \<times> val) list
       \<Rightarrow> (heap \<times> (nat \<times> nat) list) option"
  where
  "clone_val n h m Undefined = Some (h, m, Undefined)"
| "clone_val n h m Null = Some (h, m, Null)"
| "clone_val n h m (Bool b) = Some (h, m, Bool b)"
| "clone_val n h m (Num i) = Some (h, m, Num i)"
| "clone_val n h m (Str s) = Some (h, m, Str s)"
| "clone_val 0 h m (Ref a) =
     (if length h \<le> a then Some (h, m, Ref a)
      else case map_of m a of Some b \<Rightarrow> Some (h, m, Ref b) | None \<Rightarrow> None)"
| "clone_val (Suc n) h m (Ref a) =
     (if length h \<le> a then Some (h, m, Ref a)
      else case map_of m a of
          Some b \<Rightarrow> Some (h, m, Ref b)
        | None \<Rightarrow>
            (case clone_props n (h @ [\<lparr>is_array = is_array (h ! a), props = []\<rparr>])
                    (m @ [(a, length h)]) (length h) (props (h ! a)) of
               None \<Rightarrow> None
             | Some (h', m') \<Rightarrow> Some (h', m', Ref (length h))))"
| "clone_props n h m b [] = Some (h, m)"
| "clone_props n h m b ((k, v) # kvs) =
     (case clone_val n h m v of
        None \<Rightarrow> None
      | Some (h', m', v') \<Rightarrow>
          clone_props n (h'[b := (h' ! b)\<lparr>props := AList.update k v' (props (h' ! b))\<rparr>])
            m' b kvs)"

definition R_clone :: "heap \<Rightarrow> val \<Rightarrow> (heap \<times> val) option" where
  "R_clone h v =
     (case clone_val (length h) h [] v of None \<Rightarrow> None | Some (h', m, v') \<Rightarrow> Some (h', v'))"

text \<open>
  \<open>R.merge(l, r)\<close> is \<open>Object.assign({}, l, r)\<close>: a new object with the own properties
  of \<open>l\<close>, then those of \<open>r\<close>, the right one winning on a shared key. A source that
  is \<open>undefined\<close>, \<open>null\<close>, a number or a boolean contributes nothing; a string
  contributes its characters.
\<close>

fun own_enumerable :: "heap \<Rightarrow> val \<Rightarrow> (key \<times> val) list" where
  "own_enumerable h (Ref a) = (if a < length h then props (h ! a) else [])"
| "own_enumerable h (Str s) = map (\<lambda>i. (Idx i, Str [s ! i])) [0..<length s]"
| "own_enumerable h v = []"

definition R_merge :: "heap \<Rightarrow> val \<Rightarrow> val \<Rightarrow> heap \<times> val" where
  "R_merge h l r =
     (h @ [\<lparr>is_array = False,
            props = AList.merge (AList.merge [] (own_enumerable h l)) (own_enumerable h r)\<rparr>],
      Ref (length h))"

subsection \<open>The Redis connection string\<close>

text \<open>
  \<open>rnd\<close> is the value of \<open>Math.random()\<close>, a number in \<open>[0, 1)\<close>. The database number
  is the local variable \<open>databaseNumber\<close> of \<open>getRedisAppConnectionString\<close> at the
  \<open>return\<close>.
\<close>

definition databaseNumber :: "azure_config \<Rightarrow> real \<Rightarrow> string \<Rightarrow> int" where
  "databaseNumber azureConfig rnd websiteName =
     (let min = 2; max = 9;
          n = \<lfloor>rnd * real_of_int (max - min + 1)\<rfloor> + min
      in if websiteName = getWebsiteName azureConfig (Some '''') then 1 else n)"

definition getRedisAppConnectionString ::
    "heap \<Rightarrow> azure_config \<Rightarrow> real \<Rightarrow> string \<Rightarrow> js_error + string" where
  "getRedisAppConnectionString h azureConfig rnd websiteName =
     (case get_path h (webapp azureConfig)
             [Name ''siteConfig'', Name ''appSettings'', Idx 2, Name ''value''] of
        Inl e \<Rightarrow> Inl e
      | Inr (Str s) \<Rightarrow>
          Inr (replace_first ''database=9''
                 (''database='' @ string_of_int (databaseNumber azureConfig rnd websiteName)) s)
      | Inr _ \<Rightarrow> Inl TypeError)"

subsection \<open>Promises and callbacks\<close>

text \<open>
  A call to an Azure client returns a promise, which is fulfilled with a value or
  rejected with the error of the API. What a function of the module does with its
  callback is its outcome: it calls back with an error message, it calls back with
  values, or it never calls back (the handler threw, so that the promise returned by
  \<open>then\<close> is rejected, or the promise was rejected and \<open>then\<close> was given no handler
  for that).
\<close>

datatype ('a, 'e) promise = Fulfilled 'a | Rejected 'e

datatype 'a outcome =
    CallbackError string
  | CallbackOk 'a
  | HandlerThrew js_error
  | NeverCalled

subsection \<open>\<open>getSubscriptionId\<close>\<close>

record subscription =
  subscriptionId :: "string option"

definition NoSubscriptionError :: string where
  "NoSubscriptionError = ''No subscriptions available for this user.''"

definition getSubscriptionId ::
    "'c \<Rightarrow> (subscription list, 'e) promise \<Rightarrow> ('c \<times> string) outcome" where
  "getSubscriptionId credentials listed =
     (case listed of
        Rejected err \<Rightarrow> NeverCalled
      | Fulfilled res \<Rightarrow>
          (case res of
             [] \<Rightarrow> HandlerThrew TypeError
           | first # _ \<Rightarrow>
               (case subscriptionId first of
                  None \<Rightarrow> CallbackError NoSubscriptionError
                | Some i \<Rightarrow>
                    if i = '''' then CallbackError NoSubscriptionError
                    else CallbackOk (credentials, i))))"

subsection \<open>\<open>validateGroupAccess\<close>\<close>






subsection \<open>\<open>deleteEnvironment\<close>\<close>

text \<open>
  What \<open>deleteEnvironment\<close> does, in order: the call of \<open>webApps.deleteMethod\<close> with
  the resource group, the name and \<open>deleteMetrics\<close>; then, when the promise is
  fulfilled, the call of \<open>deleteAllWebappDatabaseSchemaAndData\<close> with the context
  (and the callback, which is from then on the database manager's to call); when it
  is rejected, the callback with the error.
\<close>

datatype 'e delete_event =
    DeleteMethod "string option" string bool
  | DeleteAllWebappDatabaseSchemaAndData task_context
  | DeleteCallback 'e

definition deleteEnvironment ::
    "task_context \<Rightarrow> azure_config \<Rightarrow> string \<Rightarrow> (unit, 'e) promise \<Rightarrow> 'e delete_event list" where
  "deleteEnvironment ctx azureConfig websiteName deleted =
     DeleteMethod (resource_group azureConfig) websiteName True #
     (case deleted of
        Fulfilled u \<Rightarrow> [DeleteAllWebappDatabaseSchemaAndData ctx]
      | Rejected err \<Rightarrow> [DeleteCallback err])"

definition schema_deletes :: "'e delete_event list \<Rightarrow> task_context list" where
  "schema_deletes evs = concat (map (\<lambda>ev. case ev of
       DeleteAllWebappDatabaseSchemaAndData c \<Rightarrow> [c] | _ \<Rightarrow> []) evs)"

definition delete_callbacks :: "'e delete_event list \<Rightarrow> 'e list" where
  "delete_callbacks evs = concat (map (\<lambda>ev. case ev of DeleteCallback e \<Rightarrow> [e] | _ \<Rightarrow> []) evs)"

subsection \<open>\<open>createOrUpdateEnvironment\<close>\<close>

text \<open>
  \<open>require(path)\<close> of the template file: it throws when there is no such file or
  when the file is not JSON, and otherwise answers the value of the module (parsed at
  the first call, the same object at every later call), which lives in the store.
\<close>

datatype required = NotFound | Unparseable | Loaded val

datatype 'e callback_error = Message string | ApiError 'e

definition InvalidTemplateError :: string where
  "InvalidTemplateError = ''Invalid azure environment''"

datatype 'e provision_event =
    CreateOrUpdate "string option" string val
  | CloneFromGitNoLogging string string string
  | Callback "'e callback_error option" string

record 'e provision_result =
  heap_after :: heap
  thrown :: "js_error option"
  events :: "'e provision_event list"

text \<open>Lines 168 to 170: location, server farm and the merge of \<open>siteConfig\<close>.\<close>

definition set_location :: "azure_config \<Rightarrow> val \<Rightarrow> heap \<Rightarrow> js_error + heap" where
  "set_location azureConfig azureEnvTemplate h =
     bind_e (get_path h (webapp azureConfig) [Name ''location''])
       (\<lambda>v. set_prop h azureEnvTemplate (Name ''location'') v)"

definition set_serverFarmId :: "azure_config \<Rightarrow> val \<Rightarrow> heap \<Rightarrow> js_error + heap" where
  "set_serverFarmId azureConfig azureEnvTemplate h =
     bind_e (get_path h (webapp azureConfig) [Name ''serverFarmId''])
       (\<lambda>v. set_prop h azureEnvTemplate (Name ''serverFarmId'') v)"

definition merge_siteConfig ::
    "azure_config \<Rightarrow> val \<Rightarrow> heap \<Rightarrow> (heap \<times> js_error option) option" where
  "merge_siteConfig azureConfig azureEnvTemplate h =
     (case get_prop h azureEnvTemplate (Name ''siteConfig'') of
        Inl e \<Rightarrow> Some (h, Some e)
      | Inr l \<Rightarrow>
          (case get_path h (webapp azureConfig) [Name ''siteConfig''] of
             Inl e \<Rightarrow> Some (h, Some e)
           | Inr c \<Rightarrow>
               (case R_clone h c of
                  None \<Rightarrow> None
                | Some (h1, r) \<Rightarrow>
                    (case R_merge h1 l r of
                       (h2, merged) \<Rightarrow>
                         (case set_prop h2 azureEnvTemplate (Name ''siteConfig'') merged of
                            Inl e \<Rightarrow> Some (h2, Some e)
                          | Inr h3 \<Rightarrow> Some (h3, None))))))"

definition merge_step :: "azure_config \<Rightarrow> val \<Rightarrow> heap \<Rightarrow> (heap \<times> js_error option) option" where
  "merge_step azureConfig azureEnvTemplate h =
     (case run_stmts [set_location azureConfig azureEnvTemplate,
                      set_serverFarmId azureConfig azureEnvTemplate] h of
        (h1, Some e) \<Rightarrow> Some (h1, Some e)
      | (h1, None) \<Rightarrow> merge_siteConfig azureConfig azureEnvTemplate h1)"

text \<open>
  Lines 172 to 176: the five assignments by position. In each, the object on the left
  is found first, then the right-hand side is evaluated, then the property is set.
\<close>

definition assign_slot ::
    "val \<Rightarrow> key \<Rightarrow> nat \<Rightarrow> key \<Rightarrow> (heap \<Rightarrow> js_error + val) \<Rightarrow> heap \<Rightarrow> js_error + heap" where
  "assign_slot azureEnvTemplate arr i field rhs h =
     bind_e (get_path h azureEnvTemplate [Name ''siteConfig'', arr, Idx i])
       (\<lambda>slot. bind_e (rhs h) (\<lambda>x. set_prop h slot field x))"

definition overwrite_siteConfig ::
    "task_context \<Rightarrow> azure_config \<Rightarrow> real \<Rightarrow> string \<Rightarrow> val \<Rightarrow> heap \<Rightarrow> heap \<times> js_error option" where
  "overwrite_siteConfig ctx azureConfig rnd websiteName azureEnvTemplate =
     run_stmts
       [assign_slot azureEnvTemplate (Name ''connectionStrings'') 0 (Name ''connectionString'')
          (\<lambda>h. Inr (Str (db_primary ctx 0))),
        assign_slot azureEnvTemplate (Name ''connectionStrings'') 1 (Name ''connectionString'')
          (\<lambda>h. Inr (Str (db_primary ctx 1))),
        assign_slot azureEnvTemplate (Name ''appSettings'') 0 (Name ''value'')
          (\<lambda>h. Inr (Str (websiteName @ ''.azurewebsites.net''))),
        assign_slot azureEnvTemplate (Name ''appSettings'') 1 (Name ''value'')
          (\<lambda>h. Inr (Str (db_backup_schema ctx))),
        assign_slot azureEnvTemplate (Name ''appSettings'') 2 (Name ''value'')
          (\<lambda>h. map_sum id Str (getRedisAppConnectionString h azureConfig rnd websiteName))]"

text \<open>
  Lines 178 to 199: the provisioning call and what follows it. The clone helper calls
  \<open>cloneCb\<close> when it is done, whatever the clone did.
\<close>

definition provision ::
    "task_context \<Rightarrow> azure_config \<Rightarrow> (unit, 'e) promise \<Rightarrow> string \<Rightarrow> bool \<Rightarrow> val
       \<Rightarrow> 'e provision_event list" where
  "provision ctx azureConfig provisioned websiteName updateMode azureEnvTemplate =
     CreateOrUpdate (resource_group azureConfig) websiteName azureEnvTemplate #
     (case provisioned of
        Fulfilled u \<Rightarrow>
          if updateMode then [Callback None websiteName]
          else [CloneFromGitNoLogging (getWebsiteSCMURLWithUserAndPass azureConfig websiteName)
                  (''Temp/'' @ websiteName) (cwd ctx),
                Callback None websiteName]
      | Rejected err \<Rightarrow> [Callback (Some (ApiError err)) websiteName])"

definition createOrUpdateEnvironment ::
    "task_context \<Rightarrow> azure_config \<Rightarrow> real \<Rightarrow> required \<Rightarrow> (unit, 'e) promise \<Rightarrow> heap
       \<Rightarrow> string \<Rightarrow> bool \<Rightarrow> 'e provision_result option" where
  "createOrUpdateEnvironment ctx azureConfig rnd template_module provisioned h websiteName
       updateMode =
     (case template_module of
        NotFound \<Rightarrow> Some \<lparr>heap_after = h, thrown = Some ModuleNotFound, events = []\<rparr>
      | Unparseable \<Rightarrow> Some \<lparr>heap_after = h, thrown = Some SyntaxError, events = []\<rparr>
      | Loaded azureEnvTemplate \<Rightarrow>
          if azureEnvTemplate = Undefined \<or> azureEnvTemplate = Null
          then Some \<lparr>heap_after = h, thrown = None,
                     events = [Callback (Some (Message InvalidTemplateError)) websiteName]\<rparr>
          else
            (case merge_step azureConfig azureEnvTemplate h of
               None \<Rightarrow> None
             | Some (h2, Some e) \<Rightarrow> Some \<lparr>heap_after = h2, thrown = Some e, events = []\<rparr>
             | Some (h2, None) \<Rightarrow>
                 (case overwrite_siteConfig ctx azureConfig rnd websiteName
                         azureEnvTemplate h2 of
                    (h3, Some e) \<Rightarrow> Some \<lparr>heap_after = h3, thrown = Some e, events = []\<rparr>
                  | (h3, None) \<Rightarrow>
                      Some \<lparr>heap_after = h3, thrown = None,
                            events = provision ctx azureConfig provisioned websiteName
                                       updateMode azureEnvTemplate\<rparr>)))"

subsection \<open>Shapes and reachability\<close>

text \<open>
  A store is well formed when every reference held by an object points into the
  store. The objects of a value are those reachable from it.
\<close>

definition wf_heap :: "heap \<Rightarrow> bool" where
  "wf_heap h = list_all (\<lambda>ob. list_all (\<lambda>kv. case snd kv of Ref a \<Rightarrow> a < length h | _ \<Rightarrow> True)
                                  (props ob)) h"

inductive_set reach :: "heap \<Rightarrow> val \<Rightarrow> nat set" for h :: heap and v :: val where
  root: "v = Ref a \<Longrightarrow> a < length h \<Longrightarrow> a \<in> reach h v"
| step: "a \<in> reach h v \<Longrightarrow> (k, Ref b) \<in> set (props (h ! a)) \<Longrightarrow> b < length h \<Longrightarrow> b \<in> reach h v"

text \<open>
  The objects of the template that the module writes to: the template itself and the
  objects at the five positions of its own \<open>siteConfig\<close>.
\<close>

definition slot_paths :: "key list list" where
  "slot_paths =
     [[Name ''siteConfig'', Name ''connectionStrings'', Idx 0],
      [Name ''siteConfig'', Name ''connectionStrings'', Idx 1],
      [Name ''siteConfig'', Name ''appSettings'', Idx 0],
      [Name ''siteConfig'', Name ''appSettings'', Idx 1],
      [Name ''siteConfig'', Name ''appSettings'', Idx 2]]"

definition refs_of :: "js_error + val \<Rightarrow> nat list" where
  "refs_of r = (case r of Inr (Ref a) \<Rightarrow> [a] | _ \<Rightarrow> [])"

definition template_targets :: "heap \<Rightarrow> val \<Rightarrow> nat list" where
  "template_targets h t = refs_of (Inr t) @ concat (map (\<lambda>p. refs_of (get_path h t p)) slot_paths)"

subsection \<open>Relations between stores, for the proofs\<close>

text \<open>
  \<open>val_below n v\<close>: a reference \<open>v\<close> points below \<open>n\<close>; \<open>val_within lo hi v\<close>: it
  points into \<open>[lo, hi)\<close>. \<open>old_kept h0 h\<close>: the store \<open>h\<close> is \<open>h0\<close> followed by new
  objects. \<open>region_closed L h\<close>: the objects of \<open>h\<close> from address \<open>L\<close> on refer only
  to each other. \<open>memo_fresh\<close> and \<open>memo_keys\<close> describe the table of copies of
  \<open>R.clone\<close>: copies are new objects, originals are distinct old ones.
  \<open>lookup h a k\<close> is the own property \<open>k\<close> of the object at \<open>a\<close>.
  \<open>changed A K h h'\<close>: \<open>h'\<close> extends \<open>h\<close>, an object of \<open>h\<close> outside \<open>A\<close> is the
  same in \<open>h'\<close>, and no object of \<open>h\<close> differs at a key outside \<open>K\<close>.
  \<open>phase1\<close> and \<open>overwrite_inv\<close> are what holds after lines 168 and 169 and during
  lines 172 to 176. \<open>written_objects\<close> are the template objects the module may write
  to, for any answer of \<open>require\<close>; \<open>module_in_store\<close> says that the loaded template is
  a value of the store.
\<close>

definition val_below :: "nat \<Rightarrow> val \<Rightarrow> bool" where
  "val_below n v = (case v of Ref a \<Rightarrow> a < n | _ \<Rightarrow> True)"

definition val_within :: "nat \<Rightarrow> nat \<Rightarrow> val \<Rightarrow> bool" where
  "val_within lo hi v = (case v of Ref a \<Rightarrow> lo \<le> a \<and> a < hi | _ \<Rightarrow> True)"

definition region_closed :: "nat \<Rightarrow> heap \<Rightarrow> bool" where
  "region_closed L h \<longleftrightarrow>
     (\<forall>b. L \<le> b \<and> b < length h \<longrightarrow> (\<forall>kv \<in> set (props (h ! b)). val_within L (length h) (snd kv)))"

definition memo_fresh :: "nat \<Rightarrow> heap \<Rightarrow> (nat \<times> nat) list \<Rightarrow> bool" where
  "memo_fresh L h m \<longleftrightarrow> (\<forall>ab \<in> set m. L \<le> snd ab \<and> snd ab < length h)"

definition old_kept :: "heap \<Rightarrow> heap \<Rightarrow> bool" where
  "old_kept h0 h \<longleftrightarrow> length h0 \<le> length h \<and> take (length h0) h = h0"

definition memo_keys :: "nat \<Rightarrow> (nat \<times> nat) list \<Rightarrow> bool" where
  "memo_keys L m \<longleftrightarrow> distinct (map fst m) \<and> fst ` set m \<subseteq> {..<L}"

definition lookup :: "heap \<Rightarrow> nat \<Rightarrow> key \<Rightarrow> val option" where
  "lookup h a k = map_of (props (h ! a)) k"

definition changed :: "nat set \<Rightarrow> key set \<Rightarrow> heap \<Rightarrow> heap \<Rightarrow> bool" where
  "changed A K h h' \<longleftrightarrow>
     length h \<le> length h' \<and>
     (\<forall>a<length h. is_array (h' ! a) = is_array (h ! a) \<and> (a \<notin> A \<longrightarrow> h' ! a = h ! a)
        \<and> (\<forall>k. k \<notin> K \<longrightarrow> lookup h' a k = lookup h a k))"

definition phase1 :: "val \<Rightarrow> heap \<Rightarrow> heap \<Rightarrow> bool" where
  "phase1 t h h' \<longleftrightarrow>
     changed (set (refs_of (Inr t))) {Name ''location'', Name ''serverFarmId''} h h'
     \<and> length h' = length h \<and> (wf_heap h \<longrightarrow> wf_heap h')"

definition overwrite_inv :: "heap \<Rightarrow> heap \<Rightarrow> nat set \<Rightarrow> heap \<Rightarrow> bool" where
  "overwrite_inv h h2 T h' \<longleftrightarrow>
     changed UNIV {Name ''connectionString'', Name ''value''} h2 h' \<and> length h' = length h2
     \<and> length h \<le> length h2 \<and> (\<forall>a<length h. a \<notin> T \<longrightarrow> h' ! a = h ! a)"

definition written_objects :: "heap \<Rightarrow> required \<Rightarrow> nat list" where
  "written_objects h template_module =
     (case template_module of Loaded t \<Rightarrow> template_targets h t | _ \<Rightarrow> [])"

definition module_in_store :: "heap \<Rightarrow> required \<Rightarrow> bool" where
  "module_in_store h template_module =
     (case template_module of Loaded t \<Rightarrow> val_below (length h) t | _ \<Rightarrow> True)"

text \<open>
  \<open>frame_ok h t h'\<close> is what a run of \<open>createOrUpdateEnvironment\<close> from \<open>h\<close> with the
  template \<open>t\<close> leaves: a well-formed store \<open>h'\<close> that extends \<open>h\<close>, in which the
  objects of \<open>h\<close> the module does not write to are the same, and in which the objects
  the module would write to next time are new or were such objects already.
\<close>

definition frame_ok :: "heap \<Rightarrow> val \<Rightarrow> heap \<Rightarrow> bool" where
  "frame_ok h t h' \<longleftrightarrow>
     length h \<le> length h' \<and> wf_heap h'
     \<and> (\<forall>a<length h. a \<notin> set (template_targets h t) \<longrightarrow> h' ! a = h ! a)
     \<and> (\<forall>y \<in> set (template_targets h' t). y < length h \<longrightarrow> y \<in> set (template_targets h t))"

subsection \<open>An example store\<close>

text \<open>
  A configuration whose \<open>siteConfig\<close> holds three app settings and no connection strings
  (objects 0 to 5), and a template with two connection strings and three app settings
  (objects 6 to 14).
\<close>

definition ex_config :: azure_config where
  "ex_config = \<lparr>resource_group = Some ''rg'', env_prefix = ''APP'', scm_user = ''deploy'',
     scm_password = ''pw'', webapp = Ref 0\<rparr>"

definition ex_context :: task_context where
  "ex_context = \<lparr>jira_key = Some ''PROJ-42'', db_primary = (\<lambda>i. if i = 0 then ''primary0'' else ''primary1''),
     db_backup = (\<lambda>i. if i = 0 then ''backup0'' else ''backup1''), db_backup_schema = ''schema'', cwd = ''/build''\<rparr>"

definition ex_heap :: heap where
  "ex_heap =
    [\<lparr>is_array = False, props = [(Name ''location'', Str ''Australia East''), (Name ''serverFarmId'', Str ''plan''), (Name ''siteConfig'', Ref 1)]\<rparr>,
     \<lparr>is_array = False, props = [(Name ''appSettings'', Ref 2)]\<rparr>,
     \<lparr>is_array = True, props = [(Idx 0, Ref 3), (Idx 1, Ref 4), (Idx 2, Ref 5)]\<rparr>,
     \<lparr>is_array = False, props = [(Name ''name'', Str ''HOST''), (Name ''value'', Str '''')]\<rparr>,
     \<lparr>is_array = False, props = [(Name ''name'', Str ''SCHEMA''), (Name ''value'', Str '''')]\<rparr>,
     \<lparr>is_array = False, props = [(Name ''name'', Str ''REDIS''), (Name ''value'', Str ''cache:6380,database=9,ssl=True'')]\<rparr>,
     \<lparr>is_array = False, props = [(Name ''name'', Str ''webapp''), (Name ''siteConfig'', Ref 7)]\<rparr>,
     \<lparr>is_array = False, props = [(Name ''alwaysOn'', Bool True), (Name ''connectionStrings'', Ref 8), (Name ''appSettings'', Ref 11)]\<rparr>,
     \<lparr>is_array = True, props = [(Idx 0, Ref 9), (Idx 1, Ref 10)]\<rparr>,
     \<lparr>is_array = False, props = [(Name ''name'', Str ''db0''), (Name ''connectionString'', Str '''')]\<rparr>,
     \<lparr>is_array = False, props = [(Name ''name'', Str ''db1''), (Name ''connectionString'', Str '''')]\<rparr>,
     \<lparr>is_array = True, props = [(Idx 0, Ref 12), (Idx 1, Ref 13), (Idx 2, Ref 14)]\<rparr>,
     \<lparr>is_array = False, props = [(Name ''name'', Str ''HOST''), (Name ''value'', Str ''t0'')]\<rparr>,
     \<lparr>is_array = False, props = [(Name ''name'', Str ''SCHEMA''), (Name ''value'', Str ''t1'')]\<rparr>,
     \<lparr>is_array = False, props = [(Name ''name'', Str ''REDIS''), (Name ''value'', Str ''t2'')]\<rparr>]"


section \<open>Properties\<close>

subsection \<open>Replacing the first occurrence\<close>

lemma replace_first_absent: "\<not> sublist pat s \<Longrightarrow> replace_first pat rep s = s"
proof (induction s)
  case Nil
  then show ?case by (cases pat) auto
next
  case (Cons c cs)
  then show ?case by (auto simp: sublist_Cons_right)
qed

lemma not_sublist_butlast: "pat \<noteq> [] \<Longrightarrow> \<not> sublist pat (butlast pat)"
proof
  assume "pat \<noteq> []" "sublist pat (butlast pat)"
  then have "length pat \<le> length (butlast pat)" by (rule_tac sublist_length_le)
  with \<open>pat \<noteq> []\<close> show False by (cases pat) (simp_all del: butlast.simps)
qed

lemma replace_first_present:
  "pat \<noteq> [] \<Longrightarrow> sublist pat s \<Longrightarrow>
     \<exists>pre post. s = pre @ pat @ post \<and> \<not> sublist pat (pre @ butlast pat)
        \<and> replace_first pat rep s = pre @ rep @ post"
proof (induction s)
  case Nil
  then show ?case by simp
next
  case (Cons c cs)
  show ?case
  proof (cases "prefix pat (c # cs)")
    case True
    then obtain post where "c # cs = pat @ post" by (auto simp: prefix_def)
    have "replace_first pat rep (c # cs) = rep @ drop (length pat) (c # cs)"
      using True by simp
    also have "drop (length pat) (c # cs) = post"
      by (simp only: \<open>c # cs = pat @ post\<close>) simp
    finally have "replace_first pat rep (c # cs) = rep @ post" .
    with \<open>c # cs = pat @ post\<close> Cons.prems(1) not_sublist_butlast[of pat] show ?thesis
      by (rule_tac exI[of _ "[]"], rule_tac exI[of _ post]) simp
  next
    case False
    with Cons.prems have "sublist pat cs" by (simp add: sublist_Cons_right)
    from Cons.IH[OF Cons.prems(1) this] obtain pre post where
      *: "cs = pre @ pat @ post" "\<not> sublist pat (pre @ butlast pat)"
         "replace_first pat rep cs = pre @ rep @ post" by blast
    have "\<not> prefix pat (c # pre @ butlast pat)"
    proof
      assume "prefix pat (c # pre @ butlast pat)"
      moreover have "prefix (c # pre @ butlast pat) (c # cs)"
        using * Cons.prems(1) by (metis append_butlast_last_id append.assoc prefix_Cons prefixI append_Cons)
      ultimately show False using False by (meson prefix_order.trans)
    qed
    with * have "\<not> sublist pat ((c # pre) @ butlast pat)"
      by (simp add: sublist_Cons_right)
    with * False show ?thesis
      by (rule_tac exI[of _ "c # pre"], rule_tac exI[of _ post]) simp
  qed
qed

subsection \<open>Environment names and URLs\<close>



text \<open>
  C7. With the prefix \<open>APP\<close> and the issue key \<open>PROJ-42\<close> the environment name is
  \<open>app-proj-42-qa\<close> and the web app URL is \<open>https://app-proj-42-qa.azurewebsites.net\<close>.
  \<open>getDeploymentUrl\<close> returns the SCM URL with the user name only, and no password; the
  deployment URL that the module hands to the build plan, the \<open>deploymentUrl\<close> entry of the
  variables file, is that URL followed by \<open>.git\<close>.
\<close>

theorem end_to_end_urls:
  "getWebsiteName (cfg\<lparr>env_prefix := ''APP''\<rparr>) (Some ''PROJ-42'') = ''app-proj-42-qa''
   \<and> snd (snd (getEnvironmentName (ctx\<lparr>jira_key := Some ''PROJ-42''\<rparr>)
                 (cfg\<lparr>env_prefix := ''APP''\<rparr>) credentials subscr)) = ''app-proj-42-qa''
   \<and> getWebappUrl (ctx\<lparr>jira_key := Some ''PROJ-42''\<rparr>) (cfg\<lparr>env_prefix := ''APP''\<rparr>)
       = ''https://app-proj-42-qa.azurewebsites.net''
   \<and> getDeploymentUrl (ctx\<lparr>jira_key := Some ''PROJ-42''\<rparr>) (cfg\<lparr>env_prefix := ''APP''\<rparr>)
       = ''https://'' @ scm_user cfg @ ''@app-proj-42-qa.scm.azurewebsites.net:443/app-proj-42-qa''
   \<and> hd (createAzureWebAppVariablesFile (ctx\<lparr>jira_key := Some ''PROJ-42''\<rparr>)
            (cfg\<lparr>env_prefix := ''APP''\<rparr>))
       = ''deploymentUrl=https://'' @ scm_user cfg
           @ ''@app-proj-42-qa.scm.azurewebsites.net:443/app-proj-42-qa.git''"
  by (simp add: getWebsiteName_def getEnvironmentName_def getWebappUrl_def getDeploymentUrl_def
      createAzureWebAppVariablesFile_def getWebsiteSCMURLWithUser_def jiraIssueKey_or_empty_def
      toLowerCase_def toLowerChar_def)

subsection \<open>The Redis database number\<close>




text \<open>
  C9. When the configured value of \<open>appSettings[2]\<close> is a string: if it does not contain
  \<open>database=9\<close>, \<open>getRedisAppConnectionString\<close> returns it unchanged, whatever the name and
  the random value; if it does, the result is the configured value with the first
  \<open>database=9\<close> replaced by \<open>database=\<close> and the database number.
\<close>

theorem getRedisAppConnectionString_replaces:
  assumes "get_path h (webapp cfg)
             [Name ''siteConfig'', Name ''appSettings'', Idx 2, Name ''value''] = Inr (Str s)"
  shows "(\<not> sublist ''database=9'' s \<longrightarrow>
            getRedisAppConnectionString h cfg rnd websiteName = Inr s)
       \<and> (sublist ''database=9'' s \<longrightarrow>
            (\<exists>pre post. s = pre @ ''database=9'' @ post
               \<and> \<not> sublist ''database=9'' (pre @ ''database='')
               \<and> getRedisAppConnectionString h cfg rnd websiteName =
                   Inr (pre @ ''database='' @ string_of_int (databaseNumber cfg rnd websiteName)
                          @ post)))"
proof (intro conjI impI)
  assume "\<not> sublist ''database=9'' s"
  with assms show "getRedisAppConnectionString h cfg rnd websiteName = Inr s"
    by (simp add: getRedisAppConnectionString_def replace_first_absent)
next
  assume "sublist ''database=9'' s"
  from replace_first_present[OF _ this,
      of "''database='' @ string_of_int (databaseNumber cfg rnd websiteName)"]
  obtain pre post where "s = pre @ ''database=9'' @ post"
    "\<not> sublist ''database=9'' (pre @ butlast ''database=9'')"
    "replace_first ''database=9''
       (''database='' @ string_of_int (databaseNumber cfg rnd websiteName)) s
     = pre @ (''database='' @ string_of_int (databaseNumber cfg rnd websiteName)) @ post"
    by auto
  with assms show "\<exists>pre post. s = pre @ ''database=9'' @ post
               \<and> \<not> sublist ''database=9'' (pre @ ''database='')
               \<and> getRedisAppConnectionString h cfg rnd websiteName =
                   Inr (pre @ ''database='' @ string_of_int (databaseNumber cfg rnd websiteName)
                          @ post)"
    by (rule_tac exI[of _ pre], rule_tac exI[of _ post])
       (simp add: getRedisAppConnectionString_def)
qed

theorem getRedisAppConnectionString_replaces_witness:
  "get_path ex_heap (webapp ex_config)
     [Name ''siteConfig'', Name ''appSettings'', Idx 2, Name ''value'']
     = Inr (Str ''cache:6380,database=9,ssl=True'')
   \<and> sublist ''database=9'' ''cache:6380,database=9,ssl=True''
   \<and> getRedisAppConnectionString ex_heap ex_config 0.5 ''app-proj-42-qa''
       = Inr ''cache:6380,database=6,ssl=True''
   \<and> get_path (ex_heap[5 := \<lparr>is_array = False, props = [(Name ''value'', Str ''cache:6380'')]\<rparr>])
        (webapp ex_config) [Name ''siteConfig'', Name ''appSettings'', Idx 2, Name ''value'']
     = Inr (Str ''cache:6380'')
   \<and> \<not> sublist ''database=9'' ''cache:6380''
   \<and> getRedisAppConnectionString
        (ex_heap[5 := \<lparr>is_array = False, props = [(Name ''value'', Str ''cache:6380'')]\<rparr>])
        ex_config 0.5 ''app-proj-42-qa'' = Inr ''cache:6380''"
proof -
  have a: "get_path ex_heap (webapp ex_config)
     [Name ''siteConfig'', Name ''appSettings'', Idx 2, Name ''value'']
     = Inr (Str ''cache:6380,database=9,ssl=True'')"
    by (simp add: ex_heap_def ex_config_def)
  have b: "get_path (ex_heap[5 := \<lparr>is_array = False, props = [(Name ''value'', Str ''cache:6380'')]\<rparr>])
        (webapp ex_config) [Name ''siteConfig'', Name ''appSettings'', Idx 2, Name ''value'']
     = Inr (Str ''cache:6380'')"
    by (simp add: ex_heap_def ex_config_def)
  have c: "sublist ''database=9'' ''cache:6380,database=9,ssl=True''"
    by (simp add: sublist_Cons_right)
  have d: "\<not> sublist ''database=9'' ''cache:6380''"
    by (simp add: sublist_Cons_right)
  have e: "getRedisAppConnectionString ex_heap ex_config 0.5 ''app-proj-42-qa''
       = Inr ''cache:6380,database=6,ssl=True''"
    by (simp add: getRedisAppConnectionString_def ex_heap_def ex_config_def databaseNumber_def
        getWebsiteName_def toLowerCase_def toLowerChar_def string_of_int_def
        string_of_nat.simps digit_char_def)
  from getRedisAppConnectionString_replaces[OF b, of "0.5" "''app-proj-42-qa''"] d
  have "getRedisAppConnectionString
        (ex_heap[5 := \<lparr>is_array = False, props = [(Name ''value'', Str ''cache:6380'')]\<rparr>])
        ex_config 0.5 ''app-proj-42-qa'' = Inr ''cache:6380''"
    by blast
  with a b c d e getRedisAppConnectionString_replaces[OF a, of "0.5" "''app-proj-42-qa''"]
  show ?thesis by blast
qed

subsection \<open>Subscription, resource group, deletion\<close>

text \<open>
  C3. On an empty subscription list \<open>res[0]\<close> is \<open>undefined\<close>, reading its
  \<open>subscriptionId\<close> throws inside the handler, and the callback is never called: no
  \<open>NoSubscriptionError\<close> is delivered.
\<close>

theorem getSubscriptionId_empty_list:
  "getSubscriptionId credentials (Fulfilled []) = HandlerThrew TypeError"
  by (simp add: getSubscriptionId_def)

text \<open>On a list with a first entry, the outcome is decided by that entry's id.\<close>

lemma getSubscriptionId_first_entry:
  "getSubscriptionId credentials (Fulfilled (first # others)) =
     (if subscriptionId first = None \<or> subscriptionId first = Some ''''
      then CallbackError NoSubscriptionError
      else CallbackOk (credentials, the (subscriptionId first)))"
  by (simp add: getSubscriptionId_def split: option.splits)



text \<open>
  C4. When the delete call succeeds, the schema delete of the database manager is called
  exactly once, with the context \<open>deleteEnvironment\<close> was given, and \<open>deleteEnvironment\<close>
  itself does not call back; when the delete call fails, the schema delete is never
  called and the callback gets the error of the API as it is.
\<close>

theorem deleteEnvironment_schema_delete:
  "schema_deletes (deleteEnvironment ctx cfg websiteName (Fulfilled u)) = [ctx]
   \<and> delete_callbacks (deleteEnvironment ctx cfg websiteName (Fulfilled u)) = []
   \<and> schema_deletes (deleteEnvironment ctx cfg websiteName (Rejected err)) = []
   \<and> delete_callbacks (deleteEnvironment ctx cfg websiteName (Rejected err)) = [err]"
  by (simp add: deleteEnvironment_def schema_deletes_def delete_callbacks_def)

subsection \<open>Loading the template\<close>

text \<open>
  C8. When the template file is absent or is not JSON, \<open>require\<close> throws: the exception
  leaves \<open>createOrUpdateEnvironment\<close>, the callback is not called and no provisioning call
  is made.
\<close>

theorem createOrUpdateEnvironment_template_not_loaded:
  "createOrUpdateEnvironment ctx cfg rnd NotFound provisioned h websiteName updateMode
     = Some \<lparr>heap_after = h, thrown = Some ModuleNotFound, events = []\<rparr>
   \<and> createOrUpdateEnvironment ctx cfg rnd Unparseable provisioned h websiteName updateMode
     = Some \<lparr>heap_after = h, thrown = Some SyntaxError, events = []\<rparr>"
  by (simp add: createOrUpdateEnvironment_def)

text \<open>
  The callback gets \<open>InvalidTemplateError\<close> and the name only when the template file holds
  \<open>null\<close>.
\<close>

lemma createOrUpdateEnvironment_template_nil:
  "t = Undefined \<or> t = Null \<Longrightarrow>
   createOrUpdateEnvironment ctx cfg rnd (Loaded t) provisioned h websiteName updateMode
     = Some \<lparr>heap_after = h, thrown = None,
             events = [Callback (Some (Message InvalidTemplateError)) websiteName]\<rparr>"
  by (auto simp: createOrUpdateEnvironment_def)

subsection \<open>\<open>R.clone\<close> allocates, and returns\<close>

text \<open>
  Cloning a value of a well-formed store \<open>h0\<close> leaves \<open>h0\<close> as a prefix of the store,
  builds the copies after it, with references among themselves only, and answers with
  a primitive or a reference to a copy (\<open>clone_invariant\<close>). With the length of the
  store as fuel it returns (\<open>clone_returns\<close>): each level of the recursion adds an
  object of \<open>h0\<close> to the table, whose keys are distinct.
\<close>

lemma wf_heap_val_below:
  "wf_heap h \<Longrightarrow> a < length h \<Longrightarrow> kv \<in> set (props (h ! a)) \<Longrightarrow> val_below (length h) (snd kv)"
proof -
  assume wf: "wf_heap h" and a: "a < length h" and kv: "kv \<in> set (props (h ! a))"
  from a have "h ! a \<in> set h" by (rule nth_mem)
  with wf have "\<forall>kv \<in> set (props (h ! a)). (case snd kv of Ref a \<Rightarrow> a < length h | _ \<Rightarrow> True)"
    unfolding wf_heap_def list_all_iff by blast
  with kv show ?thesis unfolding val_below_def by blast
qed

lemma old_kept_nth: "old_kept h0 h \<Longrightarrow> a < length h0 \<Longrightarrow> h ! a = h0 ! a"
  by (metis old_kept_def nth_take)

lemma old_kept_refl: "old_kept h h"
  by (simp add: old_kept_def)

lemma old_kept_append: "old_kept h0 h \<Longrightarrow> old_kept h0 (h @ ext)"
  by (simp add: old_kept_def)

lemma old_kept_update: "old_kept h0 h \<Longrightarrow> length h0 \<le> b \<Longrightarrow> old_kept h0 (h[b := ob])"
  by (simp add: old_kept_def)

lemma val_within_mono: "val_within L n v \<Longrightarrow> n \<le> n' \<Longrightarrow> val_within L n' v"
  by (auto simp: val_within_def split: val.splits)

lemma set_update_subset: "set (AList.update k v ps) \<subseteq> insert (k, v) (set ps)"
  by (induction ps) auto

lemma region_closed_append:
  "region_closed L h \<Longrightarrow> region_closed L (h @ [\<lparr>is_array = ia, props = []\<rparr>])"
proof -
  assume rc: "region_closed L h"
  have "val_within L (Suc (length h)) (snd kv)"
    if "L \<le> b" "b < Suc (length h)"
      "kv \<in> set (props ((h @ [\<lparr>is_array = ia, props = []\<rparr>]) ! b))" for b kv
  proof (cases "b < length h")
    case True
    with that have "kv \<in> set (props (h ! b))" by (simp add: nth_append)
    with rc True that(1) have "val_within L (length h) (snd kv)"
      unfolding region_closed_def by blast
    then show ?thesis by (rule val_within_mono) simp
  next
    case False
    with that(2) have "b = length h" by simp
    with that(3) show ?thesis by simp
  qed
  then show ?thesis by (simp add: region_closed_def) blast
qed

lemma region_closed_update:
  assumes "region_closed L h" "val_within L (length h) v" "b < length h"
  shows "region_closed L (h[b := (h ! b)\<lparr>props := AList.update k v (props (h ! b))\<rparr>])"
proof -
  have "val_within L (length h) (snd kv)"
    if "ba < length h" "L \<le> ba"
      "kv \<in> set (props (h[b := (h ! b)\<lparr>props := AList.update k v (props (h ! b))\<rparr>] ! ba))"
    for ba kv
  proof (cases "ba = b")
    case True
    with that assms(3) have "kv \<in> insert (k, v) (set (props (h ! b)))"
      using set_update_subset[of k v "props (h ! b)"] by auto
    with assms True that show ?thesis by (auto simp: region_closed_def)
  next
    case False
    with that assms show ?thesis by (auto simp: region_closed_def)
  qed
  then show ?thesis by (auto simp: region_closed_def)
qed

lemma memo_fresh_mono: "memo_fresh L h m \<Longrightarrow> length h \<le> length h' \<Longrightarrow> memo_fresh L h' m"
  by (auto simp: memo_fresh_def)

lemma memo_fresh_lookup: "memo_fresh L h m \<Longrightarrow> map_of m a = Some b \<Longrightarrow> val_within L (length h) (Ref b)"
  by (auto simp: memo_fresh_def val_within_def dest!: map_of_SomeD)

lemma clone_invariant:
  "(clone_val n h m v = Some (h', m', v') \<longrightarrow> old_kept h0 h \<longrightarrow> wf_heap h0 \<longrightarrow>
      region_closed (length h0) h \<longrightarrow> memo_fresh (length h0) h m \<longrightarrow> val_below (length h0) v \<longrightarrow>
      old_kept h0 h' \<and> region_closed (length h0) h' \<and> memo_fresh (length h0) h' m'
      \<and> length h \<le> length h' \<and> val_within (length h0) (length h') v')"
  "(clone_props n h m b kvs = Some (h', m') \<longrightarrow> old_kept h0 h \<longrightarrow> wf_heap h0 \<longrightarrow>
      region_closed (length h0) h \<longrightarrow> memo_fresh (length h0) h m \<longrightarrow>
      (\<forall>kv \<in> set kvs. val_below (length h0) (snd kv)) \<longrightarrow> length h0 \<le> b \<longrightarrow> b < length h \<longrightarrow>
      old_kept h0 h' \<and> region_closed (length h0) h' \<and> memo_fresh (length h0) h' m'
      \<and> length h \<le> length h')"
proof (induction n h m v and n h m b kvs arbitrary: h' m' v' and h' m' rule: clone_val_clone_props.induct)
  case (6 h m a)
  then show ?case
    by (auto simp: val_below_def old_kept_def split: if_splits option.splits dest: memo_fresh_lookup)
next
  case (7 n h m a)
  show ?case
  proof (intro impI)
    assume run: "clone_val (Suc n) h m (Ref a) = Some (h', m', v')"
      and ok: "old_kept h0 h" and wf: "wf_heap h0" and rc: "region_closed (length h0) h"
      and mf: "memo_fresh (length h0) h m" and vb: "val_below (length h0) (Ref a)"
    from vb have a: "a < length h0" by (simp add: val_below_def)
    with ok have ah: "a < length h" by (simp add: old_kept_def)
    show "old_kept h0 h' \<and> region_closed (length h0) h' \<and> memo_fresh (length h0) h' m'
      \<and> length h \<le> length h' \<and> val_within (length h0) (length h') v'"
    proof (cases "map_of m a")
      case (Some b)
      with run ah have "h' = h" "m' = m" "v' = Ref b" by auto
      with ok rc mf Some show ?thesis by (auto dest: memo_fresh_lookup)
    next
      case None
      let ?h1 = "h @ [\<lparr>is_array = is_array (h ! a), props = []\<rparr>]"
      let ?m1 = "m @ [(a, length h)]"
      from run ah None have cp: "clone_props n ?h1 ?m1 (length h) (props (h ! a)) = Some (h', m')"
        and v': "v' = Ref (length h)"
        by (auto split: option.splits)
      have "old_kept h0 ?h1" using ok by (rule old_kept_append)
      moreover have "region_closed (length h0) ?h1" using rc by (rule region_closed_append)
      moreover have "memo_fresh (length h0) ?h1 ?m1"
        using mf ok by (auto simp: memo_fresh_def old_kept_def)
      moreover have "\<forall>kv \<in> set (props (h ! a)). val_below (length h0) (snd kv)"
        using wf_heap_val_below[OF wf a] old_kept_nth[OF ok a] by simp
      moreover have "length h0 \<le> length h" "length h < length ?h1"
        using ok by (simp_all add: old_kept_def)
      ultimately have "old_kept h0 h' \<and> region_closed (length h0) h' \<and> memo_fresh (length h0) h' m'
          \<and> length ?h1 \<le> length h'"
        using "7.IH"[OF _ None, of h' m'] ah cp wf by simp
      with v' ok show ?thesis by (auto simp: val_within_def old_kept_def)
    qed
  qed
next
  case (8 n h m b)
  then show ?case by simp
next
  case (9 n h m b k v kvs)
  show ?case
  proof (intro impI)
    assume run: "clone_props n h m b ((k, v) # kvs) = Some (h', m')"
      and ok: "old_kept h0 h" and wf: "wf_heap h0" and rc: "region_closed (length h0) h"
      and mf: "memo_fresh (length h0) h m"
      and vs: "\<forall>kv \<in> set ((k, v) # kvs). val_below (length h0) (snd kv)"
      and b: "length h0 \<le> b" "b < length h"
    from run obtain h1 m1 v1 where cv: "clone_val n h m v = Some (h1, m1, v1)"
      and cp: "clone_props n (h1[b := (h1 ! b)\<lparr>props := AList.update k v1 (props (h1 ! b))\<rparr>]) m1 b kvs
                = Some (h', m')"
      by (auto split: option.splits)
    from "9.IH"(1)[of h1 m1 v1] cv ok wf rc mf vs
    have 1: "old_kept h0 h1" "region_closed (length h0) h1" "memo_fresh (length h0) h1 m1"
      "length h \<le> length h1" "val_within (length h0) (length h1) v1" by auto
    let ?h2 = "h1[b := (h1 ! b)\<lparr>props := AList.update k v1 (props (h1 ! b))\<rparr>]"
    have "old_kept h0 ?h2" using 1(1) b(1) by (rule old_kept_update)
    moreover have "region_closed (length h0) ?h2"
      using 1 b by (intro region_closed_update) auto
    moreover have "memo_fresh (length h0) ?h2 m1" using 1(3) by (simp add: memo_fresh_def)
    ultimately have "old_kept h0 h' \<and> region_closed (length h0) h' \<and> memo_fresh (length h0) h' m'
      \<and> length ?h2 \<le> length h'"
      using "9.IH"(2)[OF cv refl refl, of h' m'] cp wf vs b 1(4) by auto
    with 1(4) show "old_kept h0 h' \<and> region_closed (length h0) h' \<and> memo_fresh (length h0) h' m'
      \<and> length h \<le> length h'" by auto
  qed
qed (auto simp: val_within_def)

lemma memo_keys_room:
  assumes "memo_keys L m" "a < L" "map_of m a = None"
  shows "length m < L"
proof -
  from assms(3) have "a \<notin> set (map fst m)" by (simp add: map_of_eq_None_iff)
  moreover from assms(1) have "card (set (map fst m)) = length m"
    unfolding memo_keys_def by (metis distinct_card length_map)
  moreover from assms have "insert a (set (map fst m)) \<subseteq> {..<L}"
    by (auto simp: memo_keys_def)
  then have "card (insert a (set (map fst m))) \<le> L"
    by (metis card_lessThan card_mono finite_lessThan)
  ultimately show ?thesis by simp
qed

lemma memo_keys_extend:
  "memo_keys L m \<Longrightarrow> a < L \<Longrightarrow> map_of m a = None \<Longrightarrow> memo_keys L (m @ [(a, b)])"
  by (auto simp: memo_keys_def map_of_eq_None_iff)

lemma clone_returns:
  "(old_kept h0 h \<longrightarrow> wf_heap h0 \<longrightarrow> region_closed (length h0) h \<longrightarrow>
      memo_fresh (length h0) h m \<longrightarrow> val_below (length h0) v \<longrightarrow>
      memo_keys (length h0) m \<longrightarrow> length h0 - length m \<le> n \<longrightarrow>
      (\<exists>h' m' v'. clone_val n h m v = Some (h', m', v') \<and> memo_keys (length h0) m'
          \<and> length m \<le> length m'))"
  "(old_kept h0 h \<longrightarrow> wf_heap h0 \<longrightarrow> region_closed (length h0) h \<longrightarrow>
      memo_fresh (length h0) h m \<longrightarrow> (\<forall>kv \<in> set kvs. val_below (length h0) (snd kv)) \<longrightarrow>
      length h0 \<le> b \<longrightarrow> b < length h \<longrightarrow>
      memo_keys (length h0) m \<longrightarrow> length h0 - length m \<le> n \<longrightarrow>
      (\<exists>h' m'. clone_props n h m b kvs = Some (h', m') \<and> memo_keys (length h0) m'
          \<and> length m \<le> length m'))"
proof (induction n h m v and n h m b kvs rule: clone_val_clone_props.induct)
  case (6 h m a)
  show ?case
  proof (intro impI)
    assume ok: "old_kept h0 h" and vb: "val_below (length h0) (Ref a)"
      and mk: "memo_keys (length h0) m" and fuel: "length h0 - length m \<le> 0"
    from vb have a: "a < length h0" by (simp add: val_below_def)
    with ok have ah: "a < length h" by (simp add: old_kept_def)
    have "map_of m a \<noteq> None"
    proof
      assume "map_of m a = None"
      from memo_keys_room[OF mk a this] fuel show False by simp
    qed
    with ah mk show "\<exists>h' m' v'. clone_val 0 h m (Ref a) = Some (h', m', v')
        \<and> memo_keys (length h0) m' \<and> length m \<le> length m'"
      by auto
  qed
next
  case (7 n h m a)
  show ?case
  proof (intro impI)
    assume ok: "old_kept h0 h" and wf: "wf_heap h0" and rc: "region_closed (length h0) h"
      and mf: "memo_fresh (length h0) h m" and vb: "val_below (length h0) (Ref a)"
      and mk: "memo_keys (length h0) m" and fuel: "length h0 - length m \<le> Suc n"
    from vb have a: "a < length h0" by (simp add: val_below_def)
    with ok have ah: "a < length h" by (simp add: old_kept_def)
    show "\<exists>h' m' v'. clone_val (Suc n) h m (Ref a) = Some (h', m', v')
        \<and> memo_keys (length h0) m' \<and> length m \<le> length m'"
    proof (cases "map_of m a")
      case (Some b)
      with ah mk show ?thesis by simp
    next
      case None
      let ?h1 = "h @ [\<lparr>is_array = is_array (h ! a), props = []\<rparr>]"
      let ?m1 = "m @ [(a, length h)]"
      have "old_kept h0 ?h1" using ok by (rule old_kept_append)
      moreover have "region_closed (length h0) ?h1" using rc by (rule region_closed_append)
      moreover have "memo_fresh (length h0) ?h1 ?m1"
        using mf ok by (auto simp: memo_fresh_def old_kept_def)
      moreover have "\<forall>kv \<in> set (props (h ! a)). val_below (length h0) (snd kv)"
        using wf_heap_val_below[OF wf a] old_kept_nth[OF ok a] by simp
      moreover have "length h0 \<le> length h" "length h < length ?h1"
        using ok by (simp_all add: old_kept_def)
      moreover have "memo_keys (length h0) ?m1" using mk a None by (rule memo_keys_extend)
      moreover have "length h0 - length ?m1 \<le> n" using fuel by simp
      ultimately obtain h' m' where
        "clone_props n ?h1 ?m1 (length h) (props (h ! a)) = Some (h', m')"
        "memo_keys (length h0) m'" "length ?m1 \<le> length m'"
        using "7.IH"[OF _ None] ah wf by auto
      with None ah show ?thesis by simp
    qed
  qed
next
  case (9 n h m b k v kvs)
  show ?case
  proof (intro impI)
    assume ok: "old_kept h0 h" and wf: "wf_heap h0" and rc: "region_closed (length h0) h"
      and mf: "memo_fresh (length h0) h m"
      and vs: "\<forall>kv \<in> set ((k, v) # kvs). val_below (length h0) (snd kv)"
      and b: "length h0 \<le> b" "b < length h"
      and mk: "memo_keys (length h0) m" and fuel: "length h0 - length m \<le> n"
    from "9.IH"(1) ok wf rc mf vs mk fuel obtain h1 m1 v1 where
      cv: "clone_val n h m v = Some (h1, m1, v1)" and mk1: "memo_keys (length h0) m1"
      and len1: "length m \<le> length m1" by auto
    from clone_invariant(1)[of n h m v h1 m1 v1 h0] cv ok wf rc mf vs
    have 1: "old_kept h0 h1" "region_closed (length h0) h1" "memo_fresh (length h0) h1 m1"
      "length h \<le> length h1" "val_within (length h0) (length h1) v1" by auto
    let ?h2 = "h1[b := (h1 ! b)\<lparr>props := AList.update k v1 (props (h1 ! b))\<rparr>]"
    have "old_kept h0 ?h2" using 1(1) b(1) by (rule old_kept_update)
    moreover have "region_closed (length h0) ?h2"
      using 1 b by (intro region_closed_update) auto
    moreover have "memo_fresh (length h0) ?h2 m1" using 1(3) by (simp add: memo_fresh_def)
    moreover have "length h0 - length m1 \<le> n" using fuel len1 by simp
    ultimately obtain h' m' where
      "clone_props n ?h2 m1 b kvs = Some (h', m')" "memo_keys (length h0) m'"
      "length m1 \<le> length m'"
      using "9.IH"(2)[OF cv refl refl] wf vs b 1(4) mk1 by auto
    with cv len1 show "\<exists>h' m'. clone_props n h m b ((k, v) # kvs) = Some (h', m')
        \<and> memo_keys (length h0) m' \<and> length m \<le> length m'"
      by simp
  qed
qed simp_all

lemma R_clone_returns:
  assumes "wf_heap h" "val_below (length h) v"
  shows "\<exists>h' v'. R_clone h v = Some (h', v') \<and> old_kept h h'
           \<and> region_closed (length h) h' \<and> val_within (length h) (length h') v'"
proof -
  have rc: "region_closed (length h) h" unfolding region_closed_def by auto
  have mf: "memo_fresh (length h) h []" by (simp add: memo_fresh_def)
  have mk: "memo_keys (length h) []" by (simp add: memo_keys_def)
  from clone_returns(1)[of h h "[]" v "length h"] assms rc mf mk old_kept_refl[of h]
  obtain h' m' v' where cv: "clone_val (length h) h [] v = Some (h', m', v')" by auto
  from clone_invariant(1)[of "length h" h "[]" v h' m' v' h] cv assms rc mf old_kept_refl[of h]
  have "old_kept h h' \<and> region_closed (length h) h' \<and> val_within (length h) (length h') v'"
    by auto
  with cv show ?thesis by (simp add: R_clone_def)
qed

subsection \<open>What a write changes\<close>

lemma changed_refl: "changed A K h h"
  by (simp add: changed_def)

lemma changed_trans:
  "changed A K h h' \<Longrightarrow> changed A' K' h' h'' \<Longrightarrow> changed (A \<union> A') (K \<union> K') h h''"
  unfolding changed_def by (metis UnCI le_trans less_le_trans)

lemma changed_mono: "changed A K h h' \<Longrightarrow> A \<subseteq> A' \<Longrightarrow> K \<subseteq> K' \<Longrightarrow> changed A' K' h h'"
  unfolding changed_def by blast

lemma changed_old_kept: "old_kept h h' \<Longrightarrow> changed {} {} h h'"
  unfolding changed_def lookup_def using old_kept_nth[of h h'] by (auto simp: old_kept_def)

lemma changed_nth: "changed A K h h' \<Longrightarrow> a < length h \<Longrightarrow> a \<notin> A \<Longrightarrow> h' ! a = h ! a"
  by (simp add: changed_def)

lemma changed_lookup:
  "changed A K h h' \<Longrightarrow> a < length h \<Longrightarrow> k \<notin> K \<Longrightarrow> lookup h' a k = lookup h a k"
  by (simp add: changed_def)

lemma changed_lookup_nth:
  "changed A K h h' \<Longrightarrow> a < length h \<Longrightarrow> a \<notin> A \<Longrightarrow> lookup h' a k = lookup h a k"
  by (simp add: changed_def lookup_def)

lemma changed_length: "changed A K h h' \<Longrightarrow> length h \<le> length h'"
  by (simp add: changed_def)

lemma get_prop_Ref: "a < length h \<Longrightarrow>
  get_prop h (Ref a) k = Inr (case lookup h a k of None \<Rightarrow> Undefined | Some v \<Rightarrow> v)"
  by (simp add: lookup_def split: option.splits)

lemma set_prop_Inr:
  "set_prop h v k x = Inr h' \<Longrightarrow>
     \<exists>a. v = Ref a \<and>
       h' = (if a < length h
             then h[a := (h ! a)\<lparr>props := AList.update k x (props (h ! a))\<rparr>] else h)"
  by (cases v) (auto split: if_splits)

lemma set_prop_length: "set_prop h v k x = Inr h' \<Longrightarrow> length h' = length h"
  by (drule set_prop_Inr) auto

lemma set_prop_changed:
  assumes "set_prop h v k x = Inr h'"
  shows "changed (set (refs_of (Inr v))) {k} h h'"
proof -
  from assms obtain a where v: "v = Ref a"
    and 1: "a < length h \<Longrightarrow> h' = h[a := (h ! a)\<lparr>props := AList.update k x (props (h ! a))\<rparr>]"
    and 2: "\<not> a < length h \<Longrightarrow> h' = h" by (auto dest!: set_prop_Inr)
  show ?thesis
  proof (cases "a < length h")
    case True
    with 1 v show ?thesis
      by (auto simp: changed_def refs_of_def lookup_def nth_list_update update_conv')
  next
    case False
    with 2 show ?thesis by (simp add: changed_refl)
  qed
qed

lemma set_prop_lookup:
  "set_prop h (Ref a) k x = Inr h' \<Longrightarrow> a < length h \<Longrightarrow> lookup h' a k = Some x"
  by (auto simp: lookup_def update_conv')

lemma wf_get_prop:
  assumes "wf_heap h" "get_prop h v k = Inr x"
  shows "val_below (length h) x"
proof (cases v)
  case (Ref a)
  show ?thesis
  proof (cases "a < length h \<and> map_of (props (h ! a)) k \<noteq> None")
    case True
    then obtain y where y: "map_of (props (h ! a)) k = Some y" by auto
    then have "(k, y) \<in> set (props (h ! a))" by (rule map_of_SomeD)
    from wf_heap_val_below[OF assms(1) _ this] True have "val_below (length h) y" by simp
    with assms(2) Ref True y show ?thesis by simp
  next
    case False
    with assms(2) Ref have "x = Undefined" by (auto split: if_splits option.splits)
    then show ?thesis by (simp add: val_below_def)
  qed
next
  case (Str s)
  with assms(2) show ?thesis by (cases k) (auto simp: val_below_def)
qed (use assms(2) in \<open>auto simp: val_below_def\<close>)

lemma wf_get_path:
  "wf_heap h \<Longrightarrow> val_below (length h) v \<Longrightarrow> get_path h v p = Inr x \<Longrightarrow> val_below (length h) x"
proof (induction p arbitrary: v)
  case Nil
  then show ?case by simp
next
  case (Cons k p)
  from Cons.prems(3) obtain v' where 1: "get_prop h v k = Inr v'" and 2: "get_path h v' p = Inr x"
    by (auto split: sum.splits)
  from wf_get_prop[OF Cons.prems(1) 1] have "val_below (length h) v'" .
  from Cons.IH[OF Cons.prems(1) this 2] show ?case .
qed

lemma get_prop_changed:
  assumes "changed A K h h'" "k \<notin> K" "val_below (length h) v"
  shows "get_prop h' v k = get_prop h v k"
proof (cases v)
  case (Ref a)
  with assms(3) have a: "a < length h" by (simp add: val_below_def)
  with assms(1) have "a < length h'" by (auto simp: changed_def)
  with a Ref changed_lookup[OF assms(1) a assms(2)] show ?thesis
    by (simp add: get_prop_Ref del: get_prop.simps)
next
  case (Str s)
  then show ?thesis by (cases k) auto
qed auto

lemma get_path_changed:
  "changed A K h h' \<Longrightarrow> wf_heap h \<Longrightarrow> val_below (length h) v \<Longrightarrow> set p \<inter> K = {}
     \<Longrightarrow> get_path h' v p = get_path h v p"
proof (induction p arbitrary: v)
  case Nil
  then show ?case by simp
next
  case (Cons k p)
  from Cons.prems have eq: "get_prop h' v k = get_prop h v k"
    by (intro get_prop_changed) auto
  show ?case
  proof (cases "get_prop h v k")
    case (Inl e)
    with eq show ?thesis by simp
  next
    case (Inr v')
    from wf_get_prop[OF Cons.prems(2) Inr] have "val_below (length h) v'" .
    with Cons.IH[OF Cons.prems(1,2), of v'] Cons.prems(4) eq Inr show ?thesis by simp
  qed
qed

lemma get_prop_same_length:
  assumes "changed A K h h'" "length h' = length h" "k \<notin> K"
  shows "get_prop h' v k = get_prop h v k"
proof (cases v)
  case (Ref a)
  show ?thesis
  proof (cases "a < length h")
    case True
    with Ref assms changed_lookup[OF assms(1) True assms(3)] show ?thesis
      by (simp add: get_prop_Ref del: get_prop.simps)
  next
    case False
    with Ref assms show ?thesis by simp
  qed
next
  case (Str s)
  then show ?thesis by (cases k) auto
qed auto

lemma get_path_same_length:
  "changed A K h h' \<Longrightarrow> length h' = length h \<Longrightarrow> set p \<inter> K = {}
     \<Longrightarrow> get_path h' v p = get_path h v p"
proof (induction p arbitrary: v)
  case Nil
  then show ?case by simp
next
  case (Cons k p)
  from Cons.prems have "get_prop h' v k = get_prop h v k"
    by (intro get_prop_same_length) auto
  with Cons show ?case by (auto split: sum.splits)
qed


lemma wf_heap_set_prop:
  assumes "wf_heap h" "set_prop h v k x = Inr h'" "val_below (length h) x"
  shows "wf_heap h'"
proof -
  from assms(2) obtain a where v: "v = Ref a"
    and 1: "a < length h \<Longrightarrow> h' = h[a := (h ! a)\<lparr>props := AList.update k x (props (h ! a))\<rparr>]"
    and 2: "\<not> a < length h \<Longrightarrow> h' = h" by (auto dest!: set_prop_Inr)
  show ?thesis
  proof (cases "a < length h")
    case True
    have "val_below (length h) (snd kv)"
      if "ob \<in> set h'" "kv \<in> set (props ob)" for ob kv
    proof -
      from that(1) obtain i where i: "i < length h'" "ob = h' ! i" by (auto simp: in_set_conv_nth)
      show ?thesis
      proof (cases "i = a")
        case True
        with i 1 \<open>a < length h\<close> that(2) have "kv \<in> insert (k, x) (set (props (h ! a)))"
          using set_update_subset[of k x "props (h ! a)"] by auto
        then consider "kv = (k, x)" | "kv \<in> set (props (h ! a))" by blast
        then show ?thesis
        proof cases
          case 1
          with assms(3) show ?thesis by simp
        next
          case 2
          then show ?thesis by (rule wf_heap_val_below[OF assms(1) \<open>a < length h\<close>])
        qed
      next
        case False
        with i 1 \<open>a < length h\<close> that(2) have "kv \<in> set (props (h ! i))" "i < length h" by auto
        with wf_heap_val_below[OF assms(1)] show ?thesis by blast
      qed
    qed
    moreover have "length h' = length h" using assms(2) by (rule set_prop_length)
    ultimately have "val_below (length h') (snd kv)"
      if "ob \<in> set h'" "kv \<in> set (props ob)" for ob kv
      using that by simp
    then show ?thesis
      unfolding wf_heap_def list_all_iff val_below_def by blast
  next
    case False
    with 2 assms(1) show ?thesis by simp
  qed
qed

subsection \<open>Lines 168 to 170\<close>

lemma run_stmts_invariant:
  "(\<And>s h h'. s \<in> set ss \<Longrightarrow> P h \<Longrightarrow> s h = Inr h' \<Longrightarrow> P h') \<Longrightarrow> P h
     \<Longrightarrow> run_stmts ss h = (h', e) \<Longrightarrow> P h'"
proof (induction ss arbitrary: h)
  case Nil
  then show ?case by simp
next
  case (Cons s ss)
  show ?case
  proof (cases "s h")
    case (Inl err)
    with Cons.prems show ?thesis by simp
  next
    case (Inr h1)
    with Cons.prems(1)[of s h h1] Cons.prems(2) have 1: "P h1" by simp
    from Inr Cons.prems(3) have 2: "run_stmts ss h1 = (h', e)" by simp
    have step: "P hb" if "s' \<in> set ss" "P ha" "s' ha = Inr hb" for s' ha hb
      using Cons.prems(1)[of s' ha hb] that by simp
    from Cons.IH[OF step 1 2] show ?thesis .
  qed
qed

lemma set_from_config:
  assumes "bind_e (get_path h (webapp cfg) [k0]) (\<lambda>v. set_prop h t k v) = Inr h'"
  shows "changed (set (refs_of (Inr t))) {k} h h' \<and> length h' = length h
         \<and> (wf_heap h \<longrightarrow> wf_heap h') \<and> (\<exists>ta. t = Ref ta)"
proof -
  from assms obtain v where g: "get_path h (webapp cfg) [k0] = Inr v"
    and s: "set_prop h t k v = Inr h'"
    by (auto simp: bind_e_def split: sum.splits)
  from g have "get_prop h (webapp cfg) k0 = Inr v" by (auto split: sum.splits)
  then have "wf_heap h \<Longrightarrow> val_below (length h) v" by (rule wf_get_prop[rotated])
  with s have "wf_heap h \<Longrightarrow> wf_heap h'" by (rule wf_heap_set_prop[rotated])
  moreover from s have "\<exists>ta. t = Ref ta" by (auto dest: set_prop_Inr)
  ultimately show ?thesis using set_prop_changed[OF s] set_prop_length[OF s] by simp
qed

lemma set_location_changed:
  "set_location cfg t h = Inr h' \<Longrightarrow>
     changed (set (refs_of (Inr t))) {Name ''location''} h h' \<and> length h' = length h
     \<and> (wf_heap h \<longrightarrow> wf_heap h') \<and> (\<exists>ta. t = Ref ta)"
  unfolding set_location_def by (rule set_from_config)

lemma set_serverFarmId_changed:
  "set_serverFarmId cfg t h = Inr h' \<Longrightarrow>
     changed (set (refs_of (Inr t))) {Name ''serverFarmId''} h h' \<and> length h' = length h
     \<and> (wf_heap h \<longrightarrow> wf_heap h') \<and> (\<exists>ta. t = Ref ta)"
  unfolding set_serverFarmId_def by (rule set_from_config)

lemma phase1_refl: "phase1 t h h"
  by (simp add: phase1_def changed_refl)

lemma phase1_step:
  assumes "phase1 t h h1" "s = set_location cfg t \<or> s = set_serverFarmId cfg t" "s h1 = Inr h2"
  shows "phase1 t h h2"
proof -
  from assms(2,3) obtain k where k: "k = Name ''location'' \<or> k = Name ''serverFarmId''"
    and c: "changed (set (refs_of (Inr t))) {k} h1 h2" and l: "length h2 = length h1"
    and w: "wf_heap h1 \<longrightarrow> wf_heap h2"
    using set_location_changed[of cfg t h1 h2] set_serverFarmId_changed[of cfg t h1 h2]
    by blast
  from assms(1) have "changed (set (refs_of (Inr t))) {Name ''location'', Name ''serverFarmId''} h h1"
    by (simp add: phase1_def)
  from changed_trans[OF this c] k
  have "changed (set (refs_of (Inr t))) {Name ''location'', Name ''serverFarmId''} h h2"
    by (auto elim: changed_mono)
  with assms(1) l w show ?thesis by (simp add: phase1_def)
qed

lemma location_and_serverFarm:
  assumes "run_stmts [set_location cfg t, set_serverFarmId cfg t] h = (h1, e)"
  shows "phase1 t h h1" and "e = None \<Longrightarrow> \<exists>ta. t = Ref ta"
proof -
  show "phase1 t h h1"
  proof (rule run_stmts_invariant[where P = "phase1 t h", OF _ phase1_refl assms])
    fix s ha hb
    assume "s \<in> set [set_location cfg t, set_serverFarmId cfg t]" "phase1 t h ha" "s ha = Inr hb"
    then show "phase1 t h hb" by (intro phase1_step[of t h ha s cfg hb]) auto
  qed
  assume "e = None"
  with assms obtain h' where "set_location cfg t h = Inr h'"
    by (auto split: sum.splits)
  then show "\<exists>ta. t = Ref ta"
    using set_location_changed[of cfg t h h'] by blast
qed

lemma own_enumerable_lookup:
  assumes "map_of (own_enumerable h l) k = Some v"
  shows "get_prop h l k = Inr v"
proof (cases l)
  case (Ref a)
  with assms show ?thesis by (cases "a < length h") auto
next
  case (Str s)
  with assms have "(k, v) \<in> set (map (\<lambda>i. (Idx i, Str [s ! i])) [0..<length s])"
    by (auto dest: map_of_SomeD)
  then obtain i where "i < length s" "k = Idx i" "v = Str [s ! i]" by auto
  with Str show ?thesis by simp
qed (use assms in auto)

lemma own_enumerable_fresh:
  assumes "region_closed L h" "val_within L (length h) r" "kv \<in> set (own_enumerable h r)"
  shows "val_within L (length h) (snd kv)"
proof (cases r)
  case (Ref b)
  with assms(2) have b: "L \<le> b" "b < length h" by (simp_all add: val_within_def)
  with assms(3) Ref have "kv \<in> set (props (h ! b))" by simp
  with assms(1) b show ?thesis unfolding region_closed_def by blast
next
  case (Str s)
  with assms(3) show ?thesis by (auto simp: val_within_def)
qed (use assms(3) in auto)

lemma own_enumerable_old:
  assumes "old_kept h0 h" "val_below (length h0) l"
  shows "own_enumerable h l = own_enumerable h0 l"
proof (cases l)
  case (Ref a)
  with assms(2) have a: "a < length h0" by (simp add: val_below_def)
  with assms(1) have "a < length h" by (simp add: old_kept_def)
  with a Ref old_kept_nth[OF assms(1) a] show ?thesis by simp
qed auto

lemma R_merge_result:
  "R_merge h l r = (h', v) \<Longrightarrow>
     v = Ref (length h) \<and> length h' = Suc (length h) \<and> old_kept h h'
     \<and> lookup h' (length h) k = (map_of (own_enumerable h l) ++ map_of (own_enumerable h r)) k"
  by (auto simp: R_merge_def lookup_def old_kept_def merge_conv')

lemma merge_siteConfig_returns:
  assumes "wf_heap h1"
  shows "\<exists>res. merge_siteConfig cfg t h1 = Some res"
proof (cases "get_prop h1 t (Name ''siteConfig'')")
  case (Inl e)
  then show ?thesis by (simp add: merge_siteConfig_def)
next
  case l: (Inr l)
  show ?thesis
  proof (cases "get_path h1 (webapp cfg) [Name ''siteConfig'']")
    case (Inl e)
    with l show ?thesis by (simp add: merge_siteConfig_def)
  next
    case (Inr c)
    then have "get_prop h1 (webapp cfg) (Name ''siteConfig'') = Inr c" by (auto split: sum.splits)
    from wf_get_prop[OF assms this] have "val_below (length h1) c" .
    from R_clone_returns[OF assms this] obtain h' v' where "R_clone h1 c = Some (h', v')"
      by blast
    with l Inr show ?thesis
      by (auto simp: merge_siteConfig_def split: prod.splits sum.splits)
  qed
qed

lemma merge_siteConfig_post:
  assumes wf: "wf_heap h1" and ta: "ta < length h1"
    and run: "merge_siteConfig cfg (Ref ta) h1 = Some (h2, e)"
  shows "changed {ta} {Name ''siteConfig''} h1 h2"
    and "e = None \<Longrightarrow> \<exists>m. length h1 \<le> m \<and> m < length h2
     \<and> lookup h2 ta (Name ''siteConfig'') = Some (Ref m)
     \<and> (\<forall>k v. lookup h2 m k = Some v \<longrightarrow>
            val_within (length h1) m v
            \<or> get_path h1 (Ref ta) [Name ''siteConfig'', k] = Inr v)
     \<and> (\<forall>b k v. length h1 \<le> b \<longrightarrow> b < m \<longrightarrow> lookup h2 b k = Some v \<longrightarrow>
            val_within (length h1) m v)"
proof -
  obtain l where l: "get_prop h1 (Ref ta) (Name ''siteConfig'') = Inr l"
    using get_prop_Ref[OF ta] by blast
  show c: "changed {ta} {Name ''siteConfig''} h1 h2"
  proof (cases "get_path h1 (webapp cfg) [Name ''siteConfig'']")
    case (Inl err)
    with run l have "h2 = h1" by (simp add: merge_siteConfig_def)
    then show ?thesis by (simp add: changed_refl)
  next
    case (Inr c)
    then have "get_prop h1 (webapp cfg) (Name ''siteConfig'') = Inr c" by (auto split: sum.splits)
    from wf_get_prop[OF wf this] have "val_below (length h1) c" .
    from R_clone_returns[OF wf this] obtain hc r where cl: "R_clone h1 c = Some (hc, r)"
      and ok: "old_kept h1 hc" by blast
    obtain hm mv where mg: "R_merge hc l r = (hm, mv)" by (cases "R_merge hc l r")
    from R_merge_result[OF mg] have okm: "old_kept hc hm" by simp
    obtain h3 where sp: "set_prop hm (Ref ta) (Name ''siteConfig'') mv = Inr h3"
      by (cases "ta < length hm") simp_all
    with run l Inr cl mg have "h2 = h3"
      by (simp add: merge_siteConfig_def del: set_prop.simps)
    with set_prop_changed[OF sp]
    have "changed {ta} {Name ''siteConfig''} hm h2"
      by (simp add: refs_of_def)
    from changed_trans[OF changed_trans[OF changed_old_kept[OF ok] changed_old_kept[OF okm]] this]
    show ?thesis by simp
  qed
  assume "e = None"
  with run l obtain c where c: "get_path h1 (webapp cfg) [Name ''siteConfig''] = Inr c"
    by (cases "get_path h1 (webapp cfg) [Name ''siteConfig'']") (auto simp: merge_siteConfig_def)
  then have "get_prop h1 (webapp cfg) (Name ''siteConfig'') = Inr c" by (auto split: sum.splits)
  from wf_get_prop[OF wf this] have "val_below (length h1) c" .
  from R_clone_returns[OF wf this] obtain hc r where cl: "R_clone h1 c = Some (hc, r)"
    and ok: "old_kept h1 hc" and rc: "region_closed (length h1) hc"
    and r: "val_within (length h1) (length hc) r" by blast
  obtain hm mv where mg: "R_merge hc l r = (hm, mv)" by (cases "R_merge hc l r")
  note m = R_merge_result[OF mg]
  obtain h3 where "set_prop hm (Ref ta) (Name ''siteConfig'') mv = Inr h3"
    by (cases "ta < length hm") simp_all
  with run l c cl mg have sp: "set_prop hm (Ref ta) (Name ''siteConfig'') mv = Inr h2"
    by (simp add: merge_siteConfig_def del: set_prop.simps)
  let ?m = "length hc"
  from ok have len: "length h1 \<le> ?m" by (simp add: old_kept_def)
  from m have lenm: "length hm = Suc ?m" and mv: "mv = Ref ?m" by simp_all
  from set_prop_length[OF sp] lenm have len2: "length h2 = Suc ?m" by simp
  from ta len lenm have tam: "ta < length hm" "ta \<noteq> ?m" by simp_all
  from set_prop_changed[OF sp] have ch: "changed {ta} {Name ''siteConfig''} hm h2"
    by (simp add: refs_of_def)
  have l_old: "val_below (length h1) l" using wf l by (rule wf_get_prop)
  have 1: "lookup h2 ta (Name ''siteConfig'') = Some (Ref ?m)"
    using set_prop_lookup[OF sp tam(1)] mv by simp
  have 2: "val_within (length h1) ?m v \<or> get_path h1 (Ref ta) [Name ''siteConfig'', k] = Inr v"
    if "lookup h2 ?m k = Some v" for k v
  proof -
    from changed_lookup_nth[OF ch, of ?m k] lenm tam that
    have "lookup hm ?m k = Some v" by simp
    with m have "(map_of (own_enumerable hc l) ++ map_of (own_enumerable hc r)) k = Some v"
      by simp
    then consider "map_of (own_enumerable hc r) k = Some v"
      | "map_of (own_enumerable hc l) k = Some v" by (auto simp: map_add_Some_iff)
    then show ?thesis
    proof cases
      case 1
      then have "(k, v) \<in> set (own_enumerable hc r)" by (rule map_of_SomeD)
      from own_enumerable_fresh[OF rc r this] show ?thesis by simp
    next
      case 2
      with own_enumerable_old[OF ok l_old] have "map_of (own_enumerable h1 l) k = Some v" by simp
      then have "get_prop h1 l k = Inr v" by (rule own_enumerable_lookup)
      with l show ?thesis by simp
    qed
  qed
  have 3: "val_within (length h1) ?m v"
    if "length h1 \<le> b" "b < ?m" "lookup h2 b k = Some v" for b k v
  proof -
    from that ta have "b \<noteq> ta" by simp
    with changed_lookup_nth[OF ch, of b k] lenm that have "lookup hm b k = Some v" by simp
    moreover from m have "old_kept hc hm" by simp
    from old_kept_nth[OF this that(2)] have "hm ! b = hc ! b" .
    ultimately have "(k, v) \<in> set (props (hc ! b))"
      by (auto simp: lookup_def dest: map_of_SomeD)
    with rc that(1,2) show ?thesis unfolding region_closed_def by fastforce
  qed
  show "\<exists>m. length h1 \<le> m \<and> m < length h2
     \<and> lookup h2 ta (Name ''siteConfig'') = Some (Ref m)
     \<and> (\<forall>k v. lookup h2 m k = Some v \<longrightarrow>
            val_within (length h1) m v
            \<or> get_path h1 (Ref ta) [Name ''siteConfig'', k] = Inr v)
     \<and> (\<forall>b k v. length h1 \<le> b \<longrightarrow> b < m \<longrightarrow> lookup h2 b k = Some v \<longrightarrow>
            val_within (length h1) m v)"
  proof (intro exI[of _ ?m] conjI allI impI)
    show "length h1 \<le> ?m" by (rule len)
    show "?m < length h2" by (simp add: len2)
    show "lookup h2 ta (Name ''siteConfig'') = Some (Ref ?m)" by (rule 1)
  next
    fix k v assume "lookup h2 ?m k = Some v"
    then show "val_within (length h1) ?m v
            \<or> get_path h1 (Ref ta) [Name ''siteConfig'', k] = Inr v" by (rule 2)
  next
    fix b k v assume "length h1 \<le> b" "b < ?m" "lookup h2 b k = Some v"
    then show "val_within (length h1) ?m v" by (rule 3)
  qed
qed

subsection \<open>Lines 172 to 176\<close>

text \<open>
  After the merge, an object at one of the five positions that is an object of the
  store before the call stood at that position of the template's own \<open>siteConfig\<close>
  before the call (\<open>slot_old\<close>); every other one is a copy.
\<close>

lemma get_path2:
  "get_path h v [k1, k2] = Inr x \<longleftrightarrow> (\<exists>u. get_prop h v k1 = Inr u \<and> get_prop h u k2 = Inr x)"
  by (auto split: sum.splits)

lemma get_path3:
  "get_path h v [k1, k2, k3] = Inr x \<longleftrightarrow>
     (\<exists>u w. get_prop h v k1 = Inr u \<and> get_prop h u k2 = Inr w \<and> get_prop h w k3 = Inr x)"
  by (auto split: sum.splits)

lemma get_prop_Ref_result:
  assumes "get_prop h v k = Inr (Ref y)"
  obtains a where "v = Ref a" "a < length h" "lookup h a k = Some (Ref y)"
proof (cases v)
  case (Ref a)
  with assms have "a < length h" "lookup h a k = Some (Ref y)"
    by (auto simp: lookup_def split: if_splits option.splits)
  with Ref that show ?thesis by blast
next
  case (Str s)
  with assms show ?thesis by (cases k) (auto split: if_splits)
qed (use assms in auto)

lemma slot_old:
  assumes wf: "wf_heap h1" and ta: "ta < length h1"
    and ch: "changed {ta} {Name ''siteConfig''} h1 h2"
    and m: "length h1 \<le> m" "m < length h2" "lookup h2 ta (Name ''siteConfig'') = Some (Ref m)"
    and mprops: "\<And>k v. lookup h2 m k = Some v \<Longrightarrow>
        val_within (length h1) m v \<or> get_path h1 (Ref ta) [Name ''siteConfig'', k] = Inr v"
    and region: "\<And>b k v. length h1 \<le> b \<Longrightarrow> b < m \<Longrightarrow> lookup h2 b k = Some v \<Longrightarrow>
        val_within (length h1) m v"
    and slot: "get_path h2 (Ref ta) [Name ''siteConfig'', arr, Idx i] = Inr (Ref y)"
    and y: "y < length h1"
  shows "get_path h1 (Ref ta) [Name ''siteConfig'', arr, Idx i] = Inr (Ref y)"
proof -
  from ta ch have ta2: "ta < length h2" by (auto simp: changed_def)
  with m(3) have sc: "get_prop h2 (Ref ta) (Name ''siteConfig'') = Inr (Ref m)"
    by (simp add: get_prop_Ref del: get_prop.simps)
  from slot obtain u X where "get_prop h2 (Ref ta) (Name ''siteConfig'') = Inr u"
    "get_prop h2 u arr = Inr X" and Xi: "get_prop h2 X (Idx i) = Inr (Ref y)"
    unfolding get_path3 by blast
  with sc have X: "get_prop h2 (Ref m) arr = Inr X" by simp
  from Xi obtain x where x: "X = Ref x" "x < length h2" "lookup h2 x (Idx i) = Some (Ref y)"
    by (rule get_prop_Ref_result)
  from X m(2) x(1) have "lookup h2 m arr = Some (Ref x)"
    by (auto simp: get_prop_Ref simp del: get_prop.simps split: option.splits)
  from mprops[OF this] show ?thesis
  proof
    assume "val_within (length h1) m (Ref x)"
    then have "length h1 \<le> x" "x < m" by (simp_all add: val_within_def)
    from region[OF this x(3)] y show ?thesis by (simp add: val_within_def)
  next
    assume old: "get_path h1 (Ref ta) [Name ''siteConfig'', arr] = Inr (Ref x)"
    have "val_below (length h1) (Ref ta)" using ta by (simp add: val_below_def)
    from wf_get_path[OF wf this old] have xb: "val_below (length h1) (Ref x)" .
    have "get_prop h2 (Ref x) (Idx i) = get_prop h1 (Ref x) (Idx i)"
      using ch _ xb by (rule get_prop_changed) simp
    with Xi x(1) have "get_prop h1 (Ref x) (Idx i) = Inr (Ref y)" by simp
    with old show ?thesis unfolding get_path2 get_path3 by blast
  qed
qed

lemma assign_slot_changed:
  assumes "assign_slot t arr i field rhs h = Inr h'"
  shows "\<exists>y. get_path h t [Name ''siteConfig'', arr, Idx i] = Inr (Ref y)
           \<and> changed {y} {field} h h' \<and> length h' = length h"
proof -
  from assms obtain slot x where s: "get_path h t [Name ''siteConfig'', arr, Idx i] = Inr slot"
    and sp: "set_prop h slot field x = Inr h'"
    by (auto simp: assign_slot_def bind_e_def split: sum.splits)
  from set_prop_Inr[OF sp] obtain y where "slot = Ref y" by blast
  with s set_prop_changed[OF sp] set_prop_length[OF sp] show ?thesis
    by (auto simp: refs_of_def)
qed

lemma overwrite_inv_step:
  assumes inv: "overwrite_inv h h2 T h'"
    and run: "assign_slot t arr i field rhs h' = Inr h''"
    and field: "field = Name ''connectionString'' \<or> field = Name ''value''"
    and arr: "arr = Name ''connectionStrings'' \<or> arr = Name ''appSettings''"
    and old: "\<And>y. get_path h2 t [Name ''siteConfig'', arr, Idx i] = Inr (Ref y) \<Longrightarrow>
                y < length h \<Longrightarrow> y \<in> T"
  shows "overwrite_inv h h2 T h''"
proof -
  from inv have c2: "changed UNIV {Name ''connectionString'', Name ''value''} h2 h'"
    and len: "length h' = length h2" and len0: "length h \<le> length h2"
    and fr: "\<And>a. a < length h \<Longrightarrow> a \<notin> T \<Longrightarrow> h' ! a = h ! a"
    by (simp_all add: overwrite_inv_def)
  from assign_slot_changed[OF run] obtain y where
    s: "get_path h' t [Name ''siteConfig'', arr, Idx i] = Inr (Ref y)"
    and c: "changed {y} {field} h' h''" and len': "length h'' = length h'" by blast
  have "get_path h' t [Name ''siteConfig'', arr, Idx i] = get_path h2 t [Name ''siteConfig'', arr, Idx i]"
    using c2 len arr by (intro get_path_same_length) auto
  with s have s2: "get_path h2 t [Name ''siteConfig'', arr, Idx i] = Inr (Ref y)" by simp
  from changed_trans[OF c2 c] field
  have "changed UNIV {Name ''connectionString'', Name ''value''} h2 h''"
    by (auto elim: changed_mono)
  moreover have "h'' ! a = h ! a" if "a < length h" "a \<notin> T" for a
  proof -
    from that old[OF s2] have "a \<noteq> y" by auto
    moreover have "a < length h'" using that(1) len len0 by simp
    ultimately have "h'' ! a = h' ! a" using c by (simp add: changed_def)
    with fr[OF that] show ?thesis by simp
  qed
  ultimately show ?thesis using len len' len0 by (simp add: overwrite_inv_def)
qed

lemma overwrite_siteConfig_inv:
  assumes inv: "overwrite_inv h h2 T h2"
    and olds: "\<And>p y. p \<in> set slot_paths \<Longrightarrow> get_path h2 t p = Inr (Ref y) \<Longrightarrow>
                 y < length h \<Longrightarrow> y \<in> T"
    and run: "overwrite_siteConfig ctx cfg rnd websiteName t h2 = (h3, e)"
  shows "overwrite_inv h h2 T h3"
proof (rule run_stmts_invariant[where P = "overwrite_inv h h2 T",
      OF _ inv run[unfolded overwrite_siteConfig_def]])
  fix s ha hb
  assume s: "s \<in> set
       [assign_slot t (Name ''connectionStrings'') 0 (Name ''connectionString'')
          (\<lambda>h. Inr (Str (db_primary ctx 0))),
        assign_slot t (Name ''connectionStrings'') 1 (Name ''connectionString'')
          (\<lambda>h. Inr (Str (db_primary ctx 1))),
        assign_slot t (Name ''appSettings'') 0 (Name ''value'')
          (\<lambda>h. Inr (Str (websiteName @ ''.azurewebsites.net''))),
        assign_slot t (Name ''appSettings'') 1 (Name ''value'')
          (\<lambda>h. Inr (Str (db_backup_schema ctx))),
        assign_slot t (Name ''appSettings'') 2 (Name ''value'')
          (\<lambda>h. map_sum id Str (getRedisAppConnectionString h cfg rnd websiteName))]"
    and P: "overwrite_inv h h2 T ha" and run: "s ha = Inr hb"
  from s obtain arr i field rhs where s': "s = assign_slot t arr i field rhs"
    and f: "field = Name ''connectionString'' \<or> field = Name ''value''"
    and a: "arr = Name ''connectionStrings'' \<or> arr = Name ''appSettings''"
    and p: "[Name ''siteConfig'', arr, Idx i] \<in> set slot_paths"
    unfolding slot_paths_def by auto
  from olds[OF p] have "\<And>y. get_path h2 t [Name ''siteConfig'', arr, Idx i] = Inr (Ref y) \<Longrightarrow>
                y < length h \<Longrightarrow> y \<in> T" .
  with P run[unfolded s'] f a show "overwrite_inv h h2 T hb"
    by (rule overwrite_inv_step)
qed

subsection \<open>The whole run\<close>

text \<open>
  \<open>createOrUpdateEnvironment\<close> returns on every well-formed store, and leaves a store
  that is \<open>frame_ok\<close>.
\<close>

lemma refs_in_targets: "set (refs_of (Inr t)) \<subseteq> set (template_targets h t)"
  by (simp add: template_targets_def)

lemma slot_in_targets:
  "p \<in> set slot_paths \<Longrightarrow> get_path h t p = Inr (Ref y) \<Longrightarrow> y \<in> set (template_targets h t)"
  by (auto simp: template_targets_def refs_of_def intro!: bexI[of _ p])

lemma wf_heapI:
  assumes "\<And>a kv. a < length h \<Longrightarrow> kv \<in> set (props (h ! a)) \<Longrightarrow> val_below (length h) (snd kv)"
  shows "wf_heap h"
  unfolding wf_heap_def list_all_iff
proof (intro ballI)
  fix ob kv assume "ob \<in> set h" "kv \<in> set (props ob)"
  then obtain a where "a < length h" "ob = h ! a" by (auto simp: in_set_conv_nth)
  with assms[of a kv] \<open>kv \<in> set (props ob)\<close>
  show "case snd kv of Ref a \<Rightarrow> a < length h | _ \<Rightarrow> True"
    by (simp add: val_below_def)
qed

lemma val_below_mono: "val_below n v \<Longrightarrow> n \<le> n' \<Longrightarrow> val_below n' v"
  by (auto simp: val_below_def split: val.splits)

lemma val_within_below: "val_within L n v \<Longrightarrow> val_below n v"
  by (auto simp: val_within_def val_below_def split: val.splits)

lemma wf_after_clone:
  assumes "wf_heap h" "old_kept h hc" "region_closed (length h) hc"
  shows "wf_heap hc"
proof (rule wf_heapI)
  fix a kv assume a: "a < length hc" and kv: "kv \<in> set (props (hc ! a))"
  from assms(2) have len: "length h \<le> length hc" by (simp add: old_kept_def)
  show "val_below (length hc) (snd kv)"
  proof (cases "a < length h")
    case True
    with old_kept_nth[OF assms(2) True] kv wf_heap_val_below[OF assms(1) True, of kv]
    show ?thesis using len by (auto intro: val_below_mono)
  next
    case False
    with assms(3) a kv have "val_within (length h) (length hc) (snd kv)"
      unfolding region_closed_def by (meson not_less)
    then show ?thesis by (rule val_within_below)
  qed
qed

lemma wf_own_enumerable:
  assumes "wf_heap h" "kv \<in> set (own_enumerable h v)"
  shows "val_below (length h) (snd kv)"
proof (cases v)
  case (Ref a)
  with assms show ?thesis
    by (cases "a < length h") (auto intro: wf_heap_val_below)
next
  case (Str s)
  with assms(2) show ?thesis by (auto simp: val_below_def)
qed (use assms(2) in auto)

lemma set_merge_subset: "set (AList.merge qs ps) \<subseteq> set qs \<union> set ps"
proof -
  have "set (foldr (\<lambda>(k, v). AList.update k v) xs ys) \<subseteq> set ys \<union> set xs" for xs ys :: "('a \<times> 'b) list"
  proof (induction xs)
    case Nil
    then show ?case by simp
  next
    case (Cons x xs)
    obtain k v where x: "x = (k, v)" by (cases x)
    have "set (AList.update k v (foldr (\<lambda>(k, v). AList.update k v) xs ys))
            \<subseteq> insert (k, v) (set (foldr (\<lambda>(k, v). AList.update k v) xs ys))"
      by (rule set_update_subset)
    with Cons x show ?case by auto
  qed
  then show ?thesis by (simp add: AList.merge_def)
qed

lemma wf_after_merge:
  assumes "wf_heap h" "R_merge h l r = (h', v)"
  shows "wf_heap h'"
proof (rule wf_heapI)
  fix a kv assume a: "a < length h'" and kv: "kv \<in> set (props (h' ! a))"
  from assms(2) have h': "h' = h @ [\<lparr>is_array = False,
            props = AList.merge (AList.merge [] (own_enumerable h l)) (own_enumerable h r)\<rparr>]"
    by (simp add: R_merge_def)
  show "val_below (length h') (snd kv)"
  proof (cases "a < length h")
    case True
    with kv h' have "kv \<in> set (props (h ! a))" by (simp add: nth_append)
    from wf_heap_val_below[OF assms(1) True this] h' show ?thesis
      by (auto intro: val_below_mono)
  next
    case False
    with a h' have "a = length h" by simp
    with kv h' have "kv \<in> set (AList.merge (AList.merge [] (own_enumerable h l)) (own_enumerable h r))"
      by simp
    with set_merge_subset[of "AList.merge [] (own_enumerable h l)" "own_enumerable h r"]
      set_merge_subset[of "[]" "own_enumerable h l"]
    have "kv \<in> set (own_enumerable h l) \<or> kv \<in> set (own_enumerable h r)" by auto
    with wf_own_enumerable[OF assms(1)] have "val_below (length h) (snd kv)" by blast
    with h' show ?thesis by (auto intro: val_below_mono)
  qed
qed

lemma get_prop_Ref_Inr: "\<exists>l. get_prop h (Ref a) k = Inr l"
  by (simp split: option.splits)

lemma merge_siteConfig_error:
  assumes "merge_siteConfig cfg (Ref ta) h1 = Some (h2, Some err)"
  shows "h2 = h1"
proof -
  obtain l where l: "get_prop h1 (Ref ta) (Name ''siteConfig'') = Inr l"
    using get_prop_Ref_Inr by blast
  show ?thesis
  proof (cases "get_path h1 (webapp cfg) [Name ''siteConfig'']")
    case (Inl e)
    with assms l show ?thesis
      by (simp add: merge_siteConfig_def del: get_prop.simps get_path.simps)
  next
    case (Inr c)
    show ?thesis
    proof (cases "R_clone h1 c")
      case None
      with assms l Inr show ?thesis
        by (simp add: merge_siteConfig_def del: get_prop.simps get_path.simps)
    next
      case (Some res)
      obtain hc r where res: "res = (hc, r)" by (cases res)
      obtain hm mv where mg: "R_merge hc l r = (hm, mv)" by (cases "R_merge hc l r")
      obtain h3 where "set_prop hm (Ref ta) (Name ''siteConfig'') mv = Inr h3"
        by (cases "ta < length hm") simp_all
      with assms l Inr Some res mg show ?thesis
        by (simp add: merge_siteConfig_def del: get_prop.simps set_prop.simps get_path.simps)
    qed
  qed
qed

lemma merge_siteConfig_wf:
  assumes wf: "wf_heap h1" and run: "merge_siteConfig cfg (Ref ta) h1 = Some (h2, None)"
  shows "wf_heap h2"
proof -
  obtain l where l: "get_prop h1 (Ref ta) (Name ''siteConfig'') = Inr l"
    using get_prop_Ref_Inr by blast
  from run l obtain c where c: "get_path h1 (webapp cfg) [Name ''siteConfig''] = Inr c"
    by (cases "get_path h1 (webapp cfg) [Name ''siteConfig'']")
       (auto simp: merge_siteConfig_def simp del: get_prop.simps)
  then have "get_prop h1 (webapp cfg) (Name ''siteConfig'') = Inr c" by (auto split: sum.splits)
  from wf_get_prop[OF wf this] have "val_below (length h1) c" .
  from R_clone_returns[OF wf this] obtain hc r where cl: "R_clone h1 c = Some (hc, r)"
    and ok: "old_kept h1 hc" and rc: "region_closed (length h1) hc" by blast
  from wf_after_clone[OF wf ok rc] have wfc: "wf_heap hc" .
  obtain hm mv where mg: "R_merge hc l r = (hm, mv)" by (cases "R_merge hc l r")
  from wf_after_merge[OF wfc mg] have wfm: "wf_heap hm" .
  from R_merge_result[OF mg, of undefined] have mv: "mv = Ref (length hc)"
    and lenm: "length hm = Suc (length hc)" by simp_all
  obtain h3 where sp: "set_prop hm (Ref ta) (Name ''siteConfig'') mv = Inr h3"
    by (cases "ta < length hm") simp_all
  with run l c cl mg have "h2 = h3"
    by (simp add: merge_siteConfig_def del: get_prop.simps set_prop.simps)
  moreover have "val_below (length hm) mv" using mv lenm by (simp add: val_below_def)
  ultimately show ?thesis using wf_heap_set_prop[OF wfm sp] by simp
qed

lemma assign_slot_wf:
  assumes "wf_heap h" "assign_slot t arr i field rhs h = Inr h'"
    and "\<And>x. rhs h = Inr x \<Longrightarrow> val_below (length h) x"
  shows "wf_heap h'"
proof -
  from assms(2) obtain slot x where "rhs h = Inr x" "set_prop h slot field x = Inr h'"
    by (auto simp: assign_slot_def bind_e_def split: sum.splits)
  with assms(1,3) show ?thesis by (auto intro: wf_heap_set_prop)
qed

lemma overwrite_siteConfig_wf:
  assumes "wf_heap h2" "overwrite_siteConfig ctx cfg rnd websiteName t h2 = (h3, e)"
  shows "wf_heap h3"
proof (rule run_stmts_invariant[where P = wf_heap,
      OF _ assms(1) assms(2)[unfolded overwrite_siteConfig_def]])
  fix s ha hb
  assume s: "s \<in> set
       [assign_slot t (Name ''connectionStrings'') 0 (Name ''connectionString'')
          (\<lambda>h. Inr (Str (db_primary ctx 0))),
        assign_slot t (Name ''connectionStrings'') 1 (Name ''connectionString'')
          (\<lambda>h. Inr (Str (db_primary ctx 1))),
        assign_slot t (Name ''appSettings'') 0 (Name ''value'')
          (\<lambda>h. Inr (Str (websiteName @ ''.azurewebsites.net''))),
        assign_slot t (Name ''appSettings'') 1 (Name ''value'')
          (\<lambda>h. Inr (Str (db_backup_schema ctx))),
        assign_slot t (Name ''appSettings'') 2 (Name ''value'')
          (\<lambda>h. map_sum id Str (getRedisAppConnectionString h cfg rnd websiteName))]"
    and wf: "wf_heap ha" and run: "s ha = Inr hb"
  have A: "wf_heap hb"
    if "assign_slot t arr i field rhs ha = Inr hb"
      "\<And>x. rhs ha = Inr x \<Longrightarrow> \<exists>str. x = Str str" for arr i field rhs
  proof (rule assign_slot_wf[OF wf that(1)])
    fix x assume "rhs ha = Inr x"
    from that(2)[OF this] show "val_below (length ha) x" by (auto simp: val_below_def)
  qed
  from s consider
      "s = assign_slot t (Name ''connectionStrings'') 0 (Name ''connectionString'')
          (\<lambda>h. Inr (Str (db_primary ctx 0)))"
    | "s = assign_slot t (Name ''connectionStrings'') 1 (Name ''connectionString'')
          (\<lambda>h. Inr (Str (db_primary ctx 1)))"
    | "s = assign_slot t (Name ''appSettings'') 0 (Name ''value'')
          (\<lambda>h. Inr (Str (websiteName @ ''.azurewebsites.net'')))"
    | "s = assign_slot t (Name ''appSettings'') 1 (Name ''value'')
          (\<lambda>h. Inr (Str (db_backup_schema ctx)))"
    | "s = assign_slot t (Name ''appSettings'') 2 (Name ''value'')
          (\<lambda>h. map_sum id Str (getRedisAppConnectionString h cfg rnd websiteName))"
    by auto
  then show "wf_heap hb"
  proof cases
    case 1 with run show ?thesis by (intro A[of _ _ _ "\<lambda>h. Inr (Str (db_primary ctx 0))"]) auto
  next
    case 2 with run show ?thesis by (intro A[of _ _ _ "\<lambda>h. Inr (Str (db_primary ctx 1))"]) auto
  next
    case 3 with run show ?thesis
      by (intro A[of _ _ _ "\<lambda>h. Inr (Str (websiteName @ ''.azurewebsites.net''))"]) auto
  next
    case 4 with run show ?thesis
      by (intro A[of _ _ _ "\<lambda>h. Inr (Str (db_backup_schema ctx))"]) auto
  next
    case 5 with run show ?thesis
      by (intro A[of _ _ _
            "\<lambda>h. map_sum id Str (getRedisAppConnectionString h cfg rnd websiteName)"])
         (auto simp: map_sum_def split: sum.splits)
  qed
qed

lemma targets_subI:
  assumes "\<And>p y. p \<in> set slot_paths \<Longrightarrow> get_path h' t p = Inr (Ref y) \<Longrightarrow> y < n \<Longrightarrow>
             y \<in> set (template_targets h t)"
    and "y \<in> set (template_targets h' t)" "y < n"
  shows "y \<in> set (template_targets h t)"
proof -
  from assms(2) consider "y \<in> set (refs_of (Inr t))"
    | p where "p \<in> set slot_paths" "y \<in> set (refs_of (get_path h' t p))"
    by (auto simp: template_targets_def)
  then show ?thesis
  proof cases
    case 1
    with refs_in_targets[of t h] show ?thesis by blast
  next
    case 2
    from 2(2) have "get_path h' t p = Inr (Ref y)"
      by (auto simp: refs_of_def split: sum.splits val.splits)
    from assms(1)[OF 2(1) this assms(3)] show ?thesis .
  qed
qed

lemma frame_ok_refl: "wf_heap h \<Longrightarrow> frame_ok h t h"
  by (simp add: frame_ok_def)

lemma createOrUpdateEnvironment_frame:
  assumes wf: "wf_heap h" and tv: "val_below (length h) t"
  shows "\<exists>res. createOrUpdateEnvironment ctx cfg rnd (Loaded t) provisioned h websiteName updateMode
            = Some res \<and> frame_ok h t (heap_after res)"
proof (cases "t = Undefined \<or> t = Null")
  case True
  with frame_ok_refl[OF wf] show ?thesis
    by (auto simp: createOrUpdateEnvironment_def merge_step_def)
next
  case nonnil: False
  let ?T = "set (template_targets h t)"
  obtain h1 e1 where r1: "run_stmts [set_location cfg t, set_serverFarmId cfg t] h = (h1, e1)"
    by (cases "run_stmts [set_location cfg t, set_serverFarmId cfg t] h")
  from location_and_serverFarm(1)[OF r1]
  have c1: "changed (set (refs_of (Inr t))) {Name ''location'', Name ''serverFarmId''} h h1"
    and len1: "length h1 = length h" and wf1: "wf_heap h1"
    using wf by (simp_all add: phase1_def)
  have fr1: "h1 ! a = h ! a" if "a < length h" "a \<notin> ?T" for a
    using changed_nth[OF c1 that(1)] that(2) refs_in_targets[of t h] by blast
  have p1: "get_path h1 t p = get_path h t p" if "p \<in> set slot_paths" for p
    using c1 wf tv that unfolding slot_paths_def by (intro get_path_changed) auto
  have ok1: "frame_ok h t h1"
    unfolding frame_ok_def
  proof (intro conjI allI impI ballI)
    show "length h \<le> length h1" using len1 by simp
    show "wf_heap h1" by (rule wf1)
  next
    fix a assume "a < length h" "a \<notin> ?T"
    then show "h1 ! a = h ! a" by (rule fr1)
  next
    fix y assume "y \<in> set (template_targets h1 t)" "y < length h"
    then show "y \<in> ?T"
      by (rule targets_subI[rotated]) (simp add: p1 slot_in_targets)
  qed
  show ?thesis
  proof (cases e1)
    case (Some err)
    with r1 nonnil ok1 show ?thesis by (simp add: createOrUpdateEnvironment_def merge_step_def)
  next
    case None
    from location_and_serverFarm(2)[OF r1 None] obtain ta where t: "t = Ref ta" by blast
    with tv have ta: "ta < length h" by (simp add: val_below_def)
    with len1 have ta1: "ta < length h1" by simp
    from merge_siteConfig_returns[OF wf1, of cfg t] obtain h2 e2 where
      r2: "merge_siteConfig cfg t h1 = Some (h2, e2)" by (cases) auto
    note post = merge_siteConfig_post[OF wf1 ta1 r2[unfolded t]]
    from changed_length[OF post(1)] len1 have len2: "length h \<le> length h2" by simp
    have taT: "ta \<in> ?T" using refs_in_targets[of t h] t by (simp add: refs_of_def)
    have fr2: "h2 ! a = h ! a" if "a < length h" "a \<notin> ?T" for a
    proof -
      from that taT have "a \<noteq> ta" by auto
      with changed_nth[OF post(1), of a] that(1) len1 have "h2 ! a = h1 ! a" by simp
      with fr1[OF that] show ?thesis by simp
    qed
    show ?thesis
    proof (cases e2)
      case (Some err)
      from merge_siteConfig_error[OF r2[unfolded t Some]] have "h2 = h1" .
      with r1 r2 None Some nonnil ok1 show ?thesis
        by (simp add: createOrUpdateEnvironment_def merge_step_def)
    next
      case e2: None
      from merge_siteConfig_wf[OF wf1 r2[unfolded t e2]] have wf2: "wf_heap h2" .
      from post(2)[OF e2] obtain m where m: "length h1 \<le> m" "m < length h2"
        "lookup h2 ta (Name ''siteConfig'') = Some (Ref m)"
        and mprops: "\<And>k v. lookup h2 m k = Some v \<Longrightarrow>
          val_within (length h1) m v \<or> get_path h1 (Ref ta) [Name ''siteConfig'', k] = Inr v"
        and region: "\<And>b k v. length h1 \<le> b \<Longrightarrow> b < m \<Longrightarrow> lookup h2 b k = Some v \<Longrightarrow>
          val_within (length h1) m v"
        by blast
      obtain h3 e3 where r3: "overwrite_siteConfig ctx cfg rnd websiteName t h2 = (h3, e3)"
        by (cases "overwrite_siteConfig ctx cfg rnd websiteName t h2")
      have inv0: "overwrite_inv h h2 ?T h2"
        using fr2 len2 by (simp add: overwrite_inv_def changed_refl)
      have olds: "y \<in> ?T"
        if p: "p \<in> set slot_paths" and g: "get_path h2 t p = Inr (Ref y)" and y: "y < length h"
        for p y
      proof -
        from p obtain arr i where pe: "p = [Name ''siteConfig'', arr, Idx i]"
          unfolding slot_paths_def by auto
        from y len1 have y1: "y < length h1" by simp
        from slot_old[OF wf1 ta1 post(1) m mprops region g[unfolded pe t] y1]
        have "get_path h1 t p = Inr (Ref y)" by (simp add: t pe)
        with p1[OF p] slot_in_targets[OF p] show ?thesis by simp
      qed
      have inv3: "overwrite_inv h h2 ?T h3"
        by (rule overwrite_siteConfig_inv[OF inv0 _ r3]) (erule (2) olds)
      have p3: "get_path h3 t p = get_path h2 t p" if "p \<in> set slot_paths" for p
        using inv3 that unfolding slot_paths_def overwrite_inv_def
        by (intro get_path_same_length[of UNIV "{Name ''connectionString'', Name ''value''}"])
           auto
      have ok3: "frame_ok h t h3"
        unfolding frame_ok_def
      proof (intro conjI allI impI ballI)
        show "length h \<le> length h3" using inv3 by (simp add: overwrite_inv_def)
        show "wf_heap h3" using wf2 r3 by (rule overwrite_siteConfig_wf)
      next
        fix a assume "a < length h" "a \<notin> ?T"
        with inv3 show "h3 ! a = h ! a" by (simp add: overwrite_inv_def)
      next
        fix y assume "y \<in> set (template_targets h3 t)" "y < length h"
        then show "y \<in> ?T"
          by (rule targets_subI[rotated]) (simp add: p3 olds)
      qed
      with r1 r2 r3 None e2 nonnil show ?thesis
        by (cases e3) (simp_all add: createOrUpdateEnvironment_def merge_step_def)
    qed
  qed
qed

lemma reach_valid: "a \<in> reach h v \<Longrightarrow> a < length h"
  by (induction rule: reach.induct) auto

subsection \<open>The five assignments, one by one\<close>






subsection \<open>The example store, evaluated\<close>






lemma ex_reach: "a \<in> reach ex_heap (webapp ex_config) \<Longrightarrow> a \<in> {0, 1, 2, 3, 4, 5}"
proof (induction rule: reach.induct)
  case (root a)
  then show ?case by (simp add: ex_config_def)
next
  case (step a k b)
  from step.IH step.hyps(2) show ?case
    by (auto simp: ex_heap_def)
qed

lemma ex_reach_5: "5 \<in> reach ex_heap (webapp ex_config)"
proof -
  have 0: "0 \<in> reach ex_heap (webapp ex_config)"
    by (rule reach.root) (simp_all add: ex_config_def ex_heap_def)
  have 1: "1 \<in> reach ex_heap (webapp ex_config)"
    by (rule reach.step[OF 0, of "Name ''siteConfig''"]) (simp_all add: ex_heap_def)
  have 2: "2 \<in> reach ex_heap (webapp ex_config)"
    by (rule reach.step[OF 1, of "Name ''appSettings''"]) (simp_all add: ex_heap_def)
  show ?thesis
    by (rule reach.step[OF 2, of "Idx 2"]) (simp_all add: ex_heap_def)
qed

lemma ex_written: "written_objects ex_heap (Loaded (Ref 6)) = [6, 9, 10, 12, 13, 14]"
  by code_simp

lemma ex_wf: "wf_heap ex_heap \<and> module_in_store ex_heap (Loaded (Ref 6))"
  by code_simp

subsection \<open>The five assignments\<close>




subsection \<open>The configuration is not written to\<close>

text \<open>
  C10. \<open>createOrUpdateEnvironment\<close> leaves the configuration as it is. In a well-formed
  store where the loaded template is a value of the store and none of the template
  objects the module writes to (the template and the objects at the five positions of
  its own \<open>siteConfig\<close>) is an object of the configuration, the function returns, and
  every object reachable from the configuration's \<open>webapp\<close> is afterwards what it was
  before. The objects written at the five positions are the template's own or copies
  made by \<open>R.clone\<close>, which are new objects.
\<close>

theorem configuration_left_unchanged:
  assumes "wf_heap h" and "module_in_store h template_module"
    and "set (written_objects h template_module) \<inter> reach h (webapp cfg) = {}"
  shows "\<exists>res. createOrUpdateEnvironment ctx cfg rnd template_module provisioned h websiteName
                  updateMode = Some res
          \<and> length h \<le> length (heap_after res)
          \<and> (\<forall>a \<in> reach h (webapp cfg). heap_after res ! a = h ! a)"
proof (cases template_module)
  case (Loaded t)
  with assms(2) have tv: "val_below (length h) t" by (simp add: module_in_store_def)
  from createOrUpdateEnvironment_frame[OF assms(1) tv, of ctx cfg rnd provisioned websiteName
      updateMode, unfolded frame_ok_def]
  obtain res where res: "createOrUpdateEnvironment ctx cfg rnd (Loaded t) provisioned h websiteName
      updateMode = Some res" "length h \<le> length (heap_after res)"
    "\<And>a. a < length h \<Longrightarrow> a \<notin> set (template_targets h t) \<Longrightarrow> heap_after res ! a = h ! a"
    by blast
  have "heap_after res ! a = h ! a" if "a \<in> reach h (webapp cfg)" for a
  proof -
    from that assms(3) Loaded have "a \<notin> set (template_targets h t)"
      by (auto simp: written_objects_def)
    with res(3)[OF reach_valid[OF that]] show ?thesis .
  qed
  with res(1,2) Loaded show ?thesis by blast
qed (simp_all add: createOrUpdateEnvironment_def)

theorem configuration_left_unchanged_witness:
  "wf_heap ex_heap \<and> module_in_store ex_heap (Loaded (Ref 6))
   \<and> set (written_objects ex_heap (Loaded (Ref 6))) \<inter> reach ex_heap (webapp ex_config) = {}
   \<and> 5 \<in> reach ex_heap (webapp ex_config)
   \<and> (\<exists>res. createOrUpdateEnvironment ex_context ex_config (1 / 2) (Loaded (Ref 6))
                (Fulfilled () :: (unit, string) promise) ex_heap ''app-proj-42-qa'' False
              = Some res
            \<and> heap_after res ! 5 = ex_heap ! 5)"
proof -
  have disj: "set (written_objects ex_heap (Loaded (Ref 6))) \<inter> reach ex_heap (webapp ex_config)
                = {}"
    by (auto simp: ex_written dest: ex_reach)
  from ex_wf have wf: "wf_heap ex_heap" and ms: "module_in_store ex_heap (Loaded (Ref 6))"
    by simp_all
  from configuration_left_unchanged[OF wf ms disj,
      where ctx = ex_context and rnd = "1 / 2"
        and provisioned = "Fulfilled () :: (unit, string) promise"
        and websiteName = "''app-proj-42-qa''" and updateMode = False]
    ex_reach_5
  have "\<exists>res. createOrUpdateEnvironment ex_context ex_config (1 / 2) (Loaded (Ref 6))
                (Fulfilled () :: (unit, string) promise) ex_heap ''app-proj-42-qa'' False
              = Some res
            \<and> heap_after res ! 5 = ex_heap ! 5"
    by blast
  with wf ms disj ex_reach_5 show ?thesis by blast
qed

text \<open>
  What the statement assumes of the store holds again of the store the run leaves, so
  it applies to every later call in the same process, where \<open>require\<close> answers with the
  same, modified template object.
\<close>

lemma reach_unchanged:
  assumes wf: "wf_heap h" and v: "val_below (length h) v" and len: "length h \<le> length h'"
    and same: "\<And>a. a \<in> reach h v \<Longrightarrow> h' ! a = h ! a"
  shows "reach h' v = reach h v"
proof (intro set_eqI iffI)
  fix a assume "a \<in> reach h' v"
  then show "a \<in> reach h v"
  proof (induction rule: reach.induct)
    case (root a)
    with v show ?case by (auto simp: val_below_def intro: reach.root)
  next
    case (step a k b)
    from step.IH have a: "a < length h" by (rule reach_valid)
    from same[OF step.IH] step.hyps(2) have kb: "(k, Ref b) \<in> set (props (h ! a))" by simp
    from wf_heap_val_below[OF wf a kb] have "b < length h" by (simp add: val_below_def)
    with step.IH kb show ?case by (rule reach.step)
  qed
next
  fix a assume "a \<in> reach h v"
  then show "a \<in> reach h' v"
  proof (induction rule: reach.induct)
    case (root a)
    with len show ?case by (auto intro: reach.root)
  next
    case (step a k b)
    from same[OF step.hyps(1)] step.hyps(2) have "(k, Ref b) \<in> set (props (h' ! a))" by simp
    with step.IH show ?case using step.hyps(3) len by (auto intro: reach.step)
  qed
qed

lemma hypotheses_kept:
  assumes wf: "wf_heap h" and ms: "module_in_store h template_module"
    and cv: "val_below (length h) (webapp cfg)"
    and disj: "set (written_objects h template_module) \<inter> reach h (webapp cfg) = {}"
  shows "\<exists>res. createOrUpdateEnvironment ctx cfg rnd template_module provisioned h websiteName
                  updateMode = Some res
          \<and> wf_heap (heap_after res) \<and> module_in_store (heap_after res) template_module
          \<and> val_below (length (heap_after res)) (webapp cfg)
          \<and> set (written_objects (heap_after res) template_module)
               \<inter> reach (heap_after res) (webapp cfg) = {}"
proof (cases template_module)
  case (Loaded t)
  with ms have tv: "val_below (length h) t" by (simp add: module_in_store_def)
  from createOrUpdateEnvironment_frame[OF wf tv, of ctx cfg rnd provisioned websiteName updateMode]
  obtain res where res: "createOrUpdateEnvironment ctx cfg rnd (Loaded t) provisioned h websiteName
      updateMode = Some res" and ok: "frame_ok h t (heap_after res)"
    by blast
  let ?h' = "heap_after res"
  from ok have len: "length h \<le> length ?h'" and wf': "wf_heap ?h'"
    and fr: "\<And>a. a < length h \<Longrightarrow> a \<notin> set (template_targets h t) \<Longrightarrow> ?h' ! a = h ! a"
    and tg: "\<And>y. y \<in> set (template_targets ?h' t) \<Longrightarrow> y < length h \<Longrightarrow>
               y \<in> set (template_targets h t)"
    by (simp_all add: frame_ok_def)
  have same: "?h' ! a = h ! a" if "a \<in> reach h (webapp cfg)" for a
  proof -
    from that disj Loaded have "a \<notin> set (template_targets h t)"
      by (auto simp: written_objects_def)
    with fr[OF reach_valid[OF that]] show ?thesis .
  qed
  from reach_unchanged[OF wf cv len same] have r: "reach ?h' (webapp cfg) = reach h (webapp cfg)" .
  have "set (template_targets ?h' t) \<inter> reach ?h' (webapp cfg) = {}"
  proof (rule ccontr)
    assume "set (template_targets ?h' t) \<inter> reach ?h' (webapp cfg) \<noteq> {}"
    then obtain y where y: "y \<in> set (template_targets ?h' t)" "y \<in> reach h (webapp cfg)"
      using r by auto
    from tg[OF y(1) reach_valid[OF y(2)]] y(2) disj Loaded show False
      by (auto simp: written_objects_def)
  qed
  with res wf' tv cv len Loaded show ?thesis
    by (auto simp: module_in_store_def written_objects_def intro: val_below_mono)
next
  case NotFound
  with assms show ?thesis by (simp add: createOrUpdateEnvironment_def)
next
  case Unparseable
  with assms show ?thesis by (simp add: createOrUpdateEnvironment_def)
qed

end
